theory Spec2Isabelle
  imports Main
begin

section \<open>API client: key casing\<close>

text \<open>
  The API client rewrites object keys between the two casing conventions with two regular
  expression replacements:
  \<^verbatim>\<open>str.replace(/_([a-z])/g, (_, letter) => letter.toUpperCase())\<close> and
  \<^verbatim>\<open>str.replace(/[A-Z]/g, letter => `_${letter.toLowerCase()}`)\<close>.
  Neither expression carries the \<open>i\<close> or \<open>u\<close> flag, so the classes \<open>[a-z]\<close> and \<open>[A-Z]\<close>
  are the 26 ASCII letters each. A key is a \<^typ>\<open>string\<close>; the replacement callbacks are
  applied to matched ASCII letters only, where upper and lower case differ by 32.
\<close>

definition isUpperAZ :: "char \<Rightarrow> bool" where
  "isUpperAZ c = (65 \<le> (of_char c :: nat) \<and> (of_char c :: nat) \<le> 90)"

definition isLowerAZ :: "char \<Rightarrow> bool" where
  "isLowerAZ c = (97 \<le> (of_char c :: nat) \<and> (of_char c :: nat) \<le> 122)"

definition isDigit09 :: "char \<Rightarrow> bool" where
  "isDigit09 c = (48 \<le> (of_char c :: nat) \<and> (of_char c :: nat) \<le> 57)"

definition toLowerCase :: "char \<Rightarrow> char" where
  "toLowerCase c = (if isUpperAZ c then char_of ((of_char c :: nat) + 32) else c)"

definition toUpperCase :: "char \<Rightarrow> char" where
  "toUpperCase c = (if isLowerAZ c then char_of ((of_char c :: nat) - 32) else c)"

text \<open>
  A global replace scans from the left and continues after each match, so matches never
  overlap: an underscore followed by a lowercase letter is consumed together with that
  letter, any other character is copied.
\<close>

fun toCamelCase :: "string \<Rightarrow> string" where
  "toCamelCase (c # d # cs) =
     (if c = CHR ''_'' \<and> isLowerAZ d then toUpperCase d # toCamelCase cs
      else c # toCamelCase (d # cs))"
| "toCamelCase cs = cs"

fun toSnakeCase :: "string \<Rightarrow> string" where
  "toSnakeCase [] = []"
| "toSnakeCase (c # cs) =
     (if isUpperAZ c then CHR ''_'' # toLowerCase c # toSnakeCase cs
      else c # toSnakeCase cs)"

subsection \<open>The two key conventions\<close>

text \<open>
  An underscore key is one or more non-empty words of lowercase ASCII letters, joined by
  single underscores. \<open>joinWords\<close> builds such a key from its words, \<open>underscoreKey\<close>
  recognises one.
\<close>

fun joinWords :: "string list \<Rightarrow> string" where
  "joinWords [] = []"
| "joinWords [w] = w"
| "joinWords (w # ws) = w @ CHR ''_'' # joinWords ws"

definition lowercaseWord :: "string \<Rightarrow> bool" where
  "lowercaseWord w = (w \<noteq> [] \<and> list_all isLowerAZ w)"

fun underscoreKey :: "string \<Rightarrow> bool" where
  "underscoreKey [] = False"
| "underscoreKey [c] = isLowerAZ c"
| "underscoreKey (c # d # cs) =
     (isLowerAZ c \<and> (if d = CHR ''_'' then underscoreKey cs else underscoreKey (d # cs)))"

text \<open>
  A word-boundary key consists of ASCII letters and digits and does not start with a
  capital: every capital inside it opens a new word.
\<close>

definition wordBoundaryKey :: "string \<Rightarrow> bool" where
  "wordBoundaryKey k =
     (list_all (\<lambda>c. isLowerAZ c \<or> isUpperAZ c \<or> isDigit09 c) k \<and>
      (case k of [] \<Rightarrow> True | c # _ \<Rightarrow> \<not> isUpperAZ c))"

subsection \<open>Characters\<close>

lemma char_of_back: "n < 256 \<Longrightarrow> of_char d = (m::nat) \<Longrightarrow> n = m \<Longrightarrow> char_of n = d"
  by (metis char_of_char)

lemma lower_upper:
  "isLowerAZ d \<Longrightarrow> isUpperAZ (toUpperCase d) \<and> toLowerCase (toUpperCase d) = d"
  unfolding isLowerAZ_def isUpperAZ_def toLowerCase_def toUpperCase_def
  by (auto intro!: char_of_back)

lemma upper_lower:
  "isUpperAZ d \<Longrightarrow> isLowerAZ (toLowerCase d) \<and> toUpperCase (toLowerCase d) = d"
  unfolding isLowerAZ_def isUpperAZ_def toLowerCase_def toUpperCase_def
  by (auto intro!: char_of_back)

lemma underscore_no_letter: "\<not> isUpperAZ (CHR ''_'')" "\<not> isLowerAZ (CHR ''_'')"
  by (simp_all add: isUpperAZ_def isLowerAZ_def)

lemma lower_not_upper: "isLowerAZ c \<Longrightarrow> \<not> isUpperAZ c"
  by (simp add: isUpperAZ_def isLowerAZ_def)

lemma letter_digit_not_underscore:
  "isLowerAZ c \<or> isUpperAZ c \<or> isDigit09 c \<Longrightarrow> c \<noteq> CHR ''_''"
  by (auto simp: isUpperAZ_def isLowerAZ_def isDigit09_def)

subsection \<open>Round trips\<close>

lemma toCamelCase_Cons_other:
  "c \<noteq> CHR ''_'' \<Longrightarrow> toCamelCase (c # cs) = c # toCamelCase cs"
  by (cases cs) simp_all

lemma toCamelCase_no_underscore: "CHR ''_'' \<notin> set k \<Longrightarrow> toCamelCase k = k"
  by (induction k) (auto simp: toCamelCase_Cons_other)

lemma toSnakeCase_no_upper: "list_all (\<lambda>c. \<not> isUpperAZ c) k \<Longrightarrow> toSnakeCase k = k"
  by (induction k) simp_all

lemma camel_after_snake: "CHR ''_'' \<notin> set k \<Longrightarrow> toCamelCase (toSnakeCase k) = k"
proof (induction k)
  case Nil
  show ?case by simp
next
  case (Cons c k)
  then have ih: "toCamelCase (toSnakeCase k) = k" and c: "c \<noteq> CHR ''_''"
    by auto
  show ?case
  proof (cases "isUpperAZ c")
    case True
    with ih show ?thesis by (simp add: upper_lower)
  next
    case False
    with ih c show ?thesis by (simp add: toCamelCase_Cons_other)
  qed
qed

lemma snake_after_camel:
  "list_all (\<lambda>c. \<not> isUpperAZ c) k \<Longrightarrow> toSnakeCase (toCamelCase k) = k"
  by (induction k rule: toCamelCase.induct) (auto simp: lower_upper underscore_no_letter)

lemma length_toCamelCase: "length (toCamelCase k) \<le> length k"
  by (induction k rule: toCamelCase.induct) auto

lemma underscoreKey_no_upper: "underscoreKey k \<Longrightarrow> list_all (\<lambda>c. \<not> isUpperAZ c) k"
  by (induction k rule: underscoreKey.induct)
    (auto simp: lower_not_upper underscore_no_letter split: if_splits)

lemma underscoreKey_shrinks:
  "underscoreKey k \<Longrightarrow> CHR ''_'' \<in> set k \<Longrightarrow> length (toCamelCase k) < length k"
proof (induction k rule: underscoreKey.induct)
  case 1
  then show ?case by simp
next
  case (2 c)
  then show ?case by (auto simp: underscore_no_letter)
next
  case (3 c d cs)
  from "3.prems" have c: "isLowerAZ c" by simp
  then have cu: "c \<noteq> CHR ''_''" using underscore_no_letter by auto
  show ?case
  proof (cases "d = CHR ''_''")
    case True
    with "3.prems" have key: "underscoreKey cs" by simp
    then obtain e es where cs: "cs = e # es" and e: "isLowerAZ e"
      by (cases cs rule: underscoreKey.cases) auto
    have "length (toCamelCase es) \<le> length es" by (rule length_toCamelCase)
    with True cs e cu show ?thesis by simp
  next
    case False
    with "3.prems" have key: "underscoreKey (d # cs)" and mem: "CHR ''_'' \<in> set (d # cs)"
      using cu by auto
    from "3.IH"(2)[OF False key mem] cu show ?thesis
      by (simp add: toCamelCase_Cons_other del: toCamelCase.simps)
  qed
qed

lemma underscoreKey_joinWords:
  "ws \<noteq> [] \<Longrightarrow> list_all lowercaseWord ws \<Longrightarrow> underscoreKey (joinWords ws)"
proof (induction ws rule: joinWords.induct)
  case 1
  then show ?case by simp
next
  case (2 w)
  then have "w \<noteq> []" "list_all isLowerAZ w" by (simp_all add: lowercaseWord_def)
  then show ?case
    by (induction w rule: underscoreKey.induct) (auto simp: underscore_no_letter)
next
  case (3 w v ws)
  then have rest: "underscoreKey (joinWords (v # ws))" by simp
  from 3 have "w \<noteq> []" "list_all isLowerAZ w" by (simp_all add: lowercaseWord_def)
  then show ?case
  proof (induction w rule: underscoreKey.induct)
    case 1
    then show ?case by simp
  next
    case (2 c)
    with rest show ?case by simp
  next
    case (3 c d cs)
    then show ?case by (auto simp: underscore_no_letter)
  qed
qed

text \<open>
  C7. For every key in word-boundary casing (ASCII letters and digits, not starting with a
  capital), converting to underscore casing for the request and back to word-boundary
  casing for the response returns the key: \<open>toCamelCase (toSnakeCase k) = k\<close>.
\<close>

theorem wordBoundaryKey_round_trip:
  assumes "wordBoundaryKey k"
  shows "toCamelCase (toSnakeCase k) = k"
proof -
  from assms have "\<forall>c \<in> set k. c \<noteq> CHR ''_''"
    unfolding wordBoundaryKey_def list_all_iff
    using letter_digit_not_underscore by blast
  then have "CHR ''_'' \<notin> set k" by blast
  then show ?thesis by (rule camel_after_snake)
qed

theorem wordBoundaryKey_round_trip_witness:
  "wordBoundaryKey ''createdAtUtc2'' \<and>
   toSnakeCase ''createdAtUtc2'' = ''created_at_utc2'' \<and>
   toCamelCase (toSnakeCase ''createdAtUtc2'') = ''createdAtUtc2''"
proof -
  have k: "wordBoundaryKey ''createdAtUtc2''" by code_simp
  have s: "toSnakeCase ''createdAtUtc2'' = ''created_at_utc2''" by code_simp
  from k s wordBoundaryKey_round_trip [OF k] show ?thesis by simp
qed

text \<open>
  C3, as the specification states it: for every key of lowercase ASCII words joined by
  underscores, \<open>toCamelCase (toSnakeCase k) = k\<close>. The key \<open>foo_bar\<close> refutes it:
  \<open>toSnakeCase\<close> finds no capital and returns the key as it is, and \<open>toCamelCase\<close> then
  folds the underscore into a capital.
\<close>

theorem underscoreKey_camel_after_snake_counterexample:
  "underscoreKey (joinWords [''foo'', ''bar'']) \<and>
   toCamelCase (toSnakeCase (joinWords [''foo'', ''bar''])) = ''fooBar'' \<and>
   toCamelCase (toSnakeCase (joinWords [''foo'', ''bar''])) \<noteq> joinWords [''foo'', ''bar'']"
  by code_simp

text \<open>
  C3, amended. For every key \<open>k\<close> of lowercase ASCII words joined by underscores,
  \<open>toSnakeCase\<close> leaves \<open>k\<close> unchanged and the round trip in the opposite order is the
  identity, \<open>toSnakeCase (toCamelCase k) = k\<close>; the order the specification names,
  \<open>toCamelCase (toSnakeCase k) = k\<close>, holds exactly when \<open>k\<close> is a single word, that is,
  contains no underscore.
\<close>

theorem underscoreKey_round_trip:
  assumes "underscoreKey k"
  shows "toSnakeCase k = k \<and> toSnakeCase (toCamelCase k) = k \<and>
         (toCamelCase (toSnakeCase k) = k \<longleftrightarrow> CHR ''_'' \<notin> set k)"
proof -
  from assms have nu: "list_all (\<lambda>c. \<not> isUpperAZ c) k"
    by (rule underscoreKey_no_upper)
  then have s: "toSnakeCase k = k" by (rule toSnakeCase_no_upper)
  from nu have r: "toSnakeCase (toCamelCase k) = k" by (rule snake_after_camel)
  have "toCamelCase (toSnakeCase k) = k \<longleftrightarrow> CHR ''_'' \<notin> set k"
  proof
    assume eq: "toCamelCase (toSnakeCase k) = k"
    show "CHR ''_'' \<notin> set k"
    proof
      assume "CHR ''_'' \<in> set k"
      with assms have "length (toCamelCase k) < length k" by (rule underscoreKey_shrinks)
      with eq s show False by simp
    qed
  next
    assume "CHR ''_'' \<notin> set k"
    with s show "toCamelCase (toSnakeCase k) = k" by (simp add: toCamelCase_no_underscore)
  qed
  with s r show ?thesis by blast
qed

theorem underscoreKey_round_trip_witness:
  "underscoreKey ''match_id'' \<and> toSnakeCase ''match_id'' = ''match_id'' \<and>
   toCamelCase ''match_id'' = ''matchId'' \<and>
   toSnakeCase (toCamelCase ''match_id'') = ''match_id'' \<and>
   (toCamelCase (toSnakeCase ''match_id'') = ''match_id'' \<longleftrightarrow>
      CHR ''_'' \<notin> set ''match_id'')"
proof -
  have k: "underscoreKey ''match_id''" by code_simp
  have c: "toCamelCase ''match_id'' = ''matchId''" by code_simp
  from k c underscoreKey_round_trip [OF k] show ?thesis by simp
qed


section \<open>API client: recursive key conversion\<close>

text \<open>
  The values the client converts are JavaScript values: \<open>null\<close>, \<open>undefined\<close>, the
  primitives, arrays, and objects. An object created by a literal or by \<open>JSON.parse\<close> is
  the list of its own enumerable properties in the order \<open>Object.keys\<close> enumerates them,
  with pairwise distinct keys; \<open>JOther\<close> stands for every other object (a \<open>Date\<close>, a class
  instance), which the code only ever passes along. Numbers are carried as integers: the
  code never computes with them.
\<close>

datatype jsval =
    JNull
  | JUndefined
  | JBool bool
  | JNum int
  | JStr string
  | JArr "jsval list"
  | JObj "(string \<times> jsval) list"
  | JOther nat

text \<open>
  Writing a property of an ordinary object replaces the value of an existing property,
  which keeps its place in the enumeration order, and appends a new property otherwise.
  (The conversions map no key to or from a canonical array index, so the order of
  integer-like keys is not disturbed.)
\<close>

fun setProp :: "'k \<Rightarrow> 'v \<Rightarrow> ('k \<times> 'v) list \<Rightarrow> ('k \<times> 'v) list" where
  "setProp k v [] = [(k, v)]"
| "setProp k v ((k', v') # ps) =
     (if k' = k then (k, v) # ps else (k', v') # setProp k v ps)"

text \<open>
  The assignment \<^verbatim>\<open>acc[key] = value\<close> is such a write for every key but one: for the key
  \<open>__proto__\<close> it runs the setter inherited from \<open>Object.prototype\<close>, which creates no own
  property (it replaces the prototype when the value is an object or \<open>null\<close>, and ignores
  any other value). The lists here record own properties; a replaced prototype is not
  recorded.
\<close>

definition assignProp :: "string \<Rightarrow> 'v \<Rightarrow> (string \<times> 'v) list \<Rightarrow> (string \<times> 'v) list" where
  "assignProp k v ps = (if k = ''__proto__'' then ps else setProp k v ps)"

text \<open>
  The test \<^verbatim>\<open>typeof obj === 'object' && obj.constructor === Object\<close> reads the property
  \<open>constructor\<close>. An object literal inherits it from \<open>Object.prototype\<close>, where it is
  \<open>Object\<close>, unless the object has an own property of that name, whose value (a \<open>jsval\<close>)
  is then compared with the function \<open>Object\<close> and differs from it.
\<close>

definition plainObject :: "(string \<times> jsval) list \<Rightarrow> bool" where
  "plainObject ps = (map_of ps ''constructor'' = None)"

text \<open>
  \<^verbatim>\<open>Object.keys(obj).reduce((acc, key) => { acc[conv(key)] = f(obj[key]); return acc }, {})\<close>
  is a left fold over the properties, starting from the empty object.
\<close>

fun keysToCamel :: "jsval \<Rightarrow> jsval" where
  "keysToCamel JNull = JNull"
| "keysToCamel JUndefined = JUndefined"
| "keysToCamel (JArr xs) = JArr (map keysToCamel xs)"
| "keysToCamel (JObj ps) =
     (if plainObject ps
      then JObj (foldl (\<lambda>acc (key, val). assignProp (toCamelCase key) (keysToCamel val) acc)
                  [] ps)
      else JObj ps)"
| "keysToCamel obj = obj"

fun keysToSnake :: "jsval \<Rightarrow> jsval" where
  "keysToSnake JNull = JNull"
| "keysToSnake JUndefined = JUndefined"
| "keysToSnake (JArr xs) = JArr (map keysToSnake xs)"
| "keysToSnake (JObj ps) =
     (if plainObject ps
      then JObj (foldl (\<lambda>acc (key, val). assignProp (toSnakeCase key) (keysToSnake val) acc)
                  [] ps)
      else JObj ps)"
| "keysToSnake obj = obj"

subsection \<open>The conversion the specification describes\<close>

text \<open>
  The specification's description of the recursion, as a function of its own: an array is
  mapped element by element, a plain object is rebuilt property by property with the key
  renamed and the value converted, and every other value is returned as it is.
\<close>

fun renameKeys :: "(string \<Rightarrow> string) \<Rightarrow> jsval \<Rightarrow> jsval" where
  "renameKeys f (JArr xs) = JArr (map (renameKeys f) xs)"
| "renameKeys f (JObj ps) = JObj (map (\<lambda>(k, v). (f k, renameKeys f v)) ps)"
| "renameKeys f v = v"

text \<open>
  \<open>convertible f v\<close>: at every level of \<open>v\<close>, no object has an own property named
  \<open>constructor\<close>, no key is renamed by \<open>f\<close> to \<open>__proto__\<close>, and no two keys of one object are
  renamed by \<open>f\<close> to the same name.
\<close>

fun convertible :: "(string \<Rightarrow> string) \<Rightarrow> jsval \<Rightarrow> bool" where
  "convertible f (JArr xs) = list_all (convertible f) xs"
| "convertible f (JObj ps) =
     (plainObject ps \<and> ''__proto__'' \<notin> set (map f (map fst ps)) \<and>
      distinct (map f (map fst ps)) \<and> list_all (\<lambda>(k, v). convertible f v) ps)"
| "convertible f v = True"

subsection \<open>Property assignment\<close>

lemma setProp_fresh: "k \<notin> set (map fst ps) \<Longrightarrow> setProp k v ps = ps @ [(k, v)]"
  by (induction ps) auto

lemma keys_setProp: "set (map fst (setProp k v ps)) = insert k (set (map fst ps))"
proof (induction ps)
  case Nil
  show ?case by simp
next
  case (Cons p ps)
  obtain k' v' where p: "p = (k', v')" by (cases p)
  show ?case
  proof (cases "k' = k")
    case True
    with p show ?thesis by simp
  next
    case False
    with p have "set (map fst (setProp k v (p # ps))) = insert k' (set (map fst (setProp k v ps)))"
      by simp
    also have "\<dots> = insert k' (insert k (set (map fst ps)))" by (simp only: Cons.IH)
    finally show ?thesis using p by auto
  qed
qed

lemma distinct_setProp: "distinct (map fst ps) \<Longrightarrow> distinct (map fst (setProp k v ps))"
proof (induction ps)
  case Nil
  show ?case by simp
next
  case (Cons p ps)
  obtain k' v' where p: "p = (k', v')" by (cases p)
  from Cons p have "k' \<noteq> k \<Longrightarrow> k' \<notin> set (map fst (setProp k v ps))"
    unfolding keys_setProp by auto
  with Cons p show ?case by auto
qed

lemma map_of_setProp: "map_of (setProp k v ps) = (map_of ps)(k \<mapsto> v)"
  by (induction ps) (auto simp: fun_eq_iff)

lemma foldl_setProp_fresh:
  "distinct (map fst acc @ map f (map fst ps)) \<Longrightarrow>
   foldl (\<lambda>acc (k, v). setProp (f k) (g v) acc) acc ps = acc @ map (\<lambda>(k, v). (f k, g v)) ps"
proof (induction ps arbitrary: acc)
  case Nil
  show ?case by simp
next
  case (Cons p ps)
  obtain k v where p: "p = (k, v)" by (cases p)
  from Cons.prems p have fresh: "f k \<notin> set (map fst acc)" by auto
  from Cons.prems p have "distinct (map fst (acc @ [(f k, g v)]) @ map f (map fst ps))"
    by auto
  from Cons.IH[OF this] fresh p show ?case by (simp add: setProp_fresh)
qed

text \<open>Without a key \<open>__proto__\<close>, every assignment of the fold is an ordinary write.\<close>

lemma foldl_assignProp_ordinary:
  "''__proto__'' \<notin> set (map f (map fst ps)) \<Longrightarrow>
   foldl (\<lambda>acc (k, v). assignProp (f k) (g v) acc) acc ps =
   foldl (\<lambda>acc (k, v). setProp (f k) (g v) acc) acc ps"
proof (induction ps arbitrary: acc)
  case Nil
  show ?case by simp
next
  case (Cons p ps)
  obtain k v where p: "p = (k, v)" by (cases p)
  from Cons.prems p have "f k \<noteq> ''__proto__''" by auto
  with Cons p show ?case by (simp add: assignProp_def)
qed

lemma keys_assignProp:
  "set (map fst (assignProp k v ps)) \<subseteq> insert k (set (map fst ps))"
  unfolding assignProp_def using keys_setProp[of k v ps] by auto

lemma map_of_assignProp:
  "name \<noteq> ''__proto__'' \<Longrightarrow>
   map_of (assignProp k v ps) name = (if k = name then Some v else map_of ps name)"
  by (simp add: assignProp_def map_of_setProp)

lemma keys_foldl_assignProp:
  "set (map fst (foldl (\<lambda>acc (k, v). assignProp (f k) (g v) acc) acc ps)) \<subseteq>
   set (map fst acc) \<union> f ` set (map fst ps)"
proof (induction ps arbitrary: acc)
  case Nil
  show ?case by simp
next
  case (Cons p ps)
  obtain k v where p: "p = (k, v)" by (cases p)
  have step: "foldl (\<lambda>acc (k, v). assignProp (f k) (g v) acc) acc (p # ps) =
              foldl (\<lambda>acc (k, v). assignProp (f k) (g v) acc) (assignProp (f k) (g v) acc) ps"
    by (simp add: p)
  from Cons.IH[of "assignProp (f k) (g v) acc"] keys_assignProp[of "f k" "g v" acc]
  show ?case unfolding step p by auto
qed

lemma distinct_foldl_assignProp:
  "distinct (map fst acc) \<Longrightarrow>
   distinct (map fst (foldl (\<lambda>acc (k, v). assignProp (f k) (g v) acc) acc ps))"
proof (induction ps arbitrary: acc)
  case Nil
  then show ?case by simp
next
  case (Cons p ps)
  obtain k v where p: "p = (k, v)" by (cases p)
  from Cons.prems have "distinct (map fst (assignProp (f k) (g v) acc))"
    by (simp add: assignProp_def distinct_setProp)
  from Cons.IH[OF this] show ?case by (simp add: p)
qed

lemma map_of_foldl_assignProp:
  "name \<noteq> ''__proto__'' \<Longrightarrow>
   map_of (foldl (\<lambda>acc (k, v). assignProp (f k) (g v) acc) acc ps) name =
   (map_of acc ++ map_of (rev (map (\<lambda>(k, v). (f k, g v)) ps))) name"
proof (induction ps arbitrary: acc)
  case Nil
  show ?case by simp
next
  case (Cons p ps)
  obtain k v where p: "p = (k, v)" by (cases p)
  have step: "foldl (\<lambda>acc (k, v). assignProp (f k) (g v) acc) acc (p # ps) =
              foldl (\<lambda>acc (k, v). assignProp (f k) (g v) acc) (assignProp (f k) (g v) acc) ps"
    by (simp add: p)
  have "map_of (foldl (\<lambda>acc (k, v). assignProp (f k) (g v) acc)
            (assignProp (f k) (g v) acc) ps) name =
        (map_of (assignProp (f k) (g v) acc) ++
         map_of (rev (map (\<lambda>(k, v). (f k, g v)) ps))) name"
    using Cons.prems by (rule Cons.IH)
  then show ?case
    unfolding step
    by (simp add: p map_of_assignProp[OF Cons.prems] map_add_def split: option.splits)
qed

lemma map_of_rev_last:
  assumes "j < length xs" and "xs ! j = (k, v)"
    and "\<forall>l. j < l \<and> l < length xs \<longrightarrow> fst (xs ! l) \<noteq> k"
  shows "map_of (rev xs) k = Some v"
  using assms
proof (induction xs rule: rev_induct)
  case Nil
  then show ?case by simp
next
  case (snoc x xs)
  show ?case
  proof (cases "j = length xs")
    case True
    with snoc.prems show ?thesis by simp
  next
    case False
    with snoc.prems have j: "j < length xs" by simp
    with snoc.prems have at: "xs ! j = (k, v)" by (simp add: nth_append)
    from snoc.prems(3) j have "fst ((xs @ [x]) ! length xs) \<noteq> k"
      by (metis length_append_singleton lessI)
    then have x: "fst x \<noteq> k" by simp
    have "\<forall>l. j < l \<and> l < length xs \<longrightarrow> fst (xs ! l) \<noteq> k"
    proof (intro allI impI)
      fix l assume l: "j < l \<and> l < length xs"
      with snoc.prems(3) have "fst ((xs @ [x]) ! l) \<noteq> k" by simp
      with l show "fst (xs ! l) \<noteq> k" by (simp add: nth_append)
    qed
    from snoc.IH[OF j at this] x show ?thesis by (cases x) simp
  qed
qed

text \<open>
  Rebuilding an object in which two properties are renamed to the same name: the result
  has fewer properties, and unless the shared name is \<open>__proto__\<close> the last of the
  colliding properties supplies the value.
\<close>

lemma rebuild_collision:
  fixes ps :: "(string \<times> jsval) list" and f :: "string \<Rightarrow> string" and g :: "jsval \<Rightarrow> jsval"
  assumes "i < j" and "j < length ps"
    and same: "f (fst (ps ! i)) = f (fst (ps ! j))"
    and last: "\<forall>l. j < l \<and> l < length ps \<longrightarrow> f (fst (ps ! l)) \<noteq> f (fst (ps ! j))"
    and ordinary: "f (fst (ps ! j)) \<noteq> ''__proto__''"
  defines "qs \<equiv> foldl (\<lambda>acc (k, v). assignProp (f k) (g v) acc) [] ps"
  shows "length qs < length ps \<and> map_of qs (f (fst (ps ! j))) = Some (g (snd (ps ! j)))"
proof -
  let ?ks = "map f (map fst ps)"
  have d: "distinct (map fst qs)"
    unfolding qs_def by (rule distinct_foldl_assignProp) simp
  have keys: "set (map fst qs) \<subseteq> set ?ks"
    unfolding qs_def using keys_foldl_assignProp[of f g "[]" ps] by (simp add: image_image)
  have "\<not> distinct ?ks"
  proof
    assume "distinct ?ks"
    moreover from assms(1,2) have "i < length ?ks" "j < length ?ks" "i \<noteq> j" by simp_all
    ultimately have "?ks ! i \<noteq> ?ks ! j"
      by (simp add: nth_eq_iff_index_eq del: length_map nth_map)
    with assms(1,2) same show False by simp
  qed
  then have "card (set ?ks) < length ?ks"
    using card_length[of ?ks] card_distinct[of ?ks] by force
  moreover from d have "length qs = card (set (map fst qs))"
    by (metis distinct_card length_map)
  moreover from keys have "card (set (map fst qs)) \<le> card (set ?ks)"
    by (rule card_mono[rotated]) simp
  ultimately have len: "length qs < length ps" by simp
  let ?xs = "map (\<lambda>(k, v). (f k, g v)) ps"
  have at: "?xs ! j = (f (fst (ps ! j)), g (snd (ps ! j)))"
    using assms(2) by (simp add: case_prod_beta)
  have later: "\<forall>l. j < l \<and> l < length ?xs \<longrightarrow> fst (?xs ! l) \<noteq> f (fst (ps ! j))"
    using last by (simp add: case_prod_beta)
  have "map_of (rev ?xs) (f (fst (ps ! j))) = Some (g (snd (ps ! j)))"
    by (rule map_of_rev_last[OF _ at later]) (simp add: assms(2))
  then have "map_of qs (f (fst (ps ! j))) = Some (g (snd (ps ! j)))"
    unfolding qs_def map_of_foldl_assignProp[OF ordinary] by simp
  with len show ?thesis by simp
qed

text \<open>Two keys that differ and are converted to the same name, for each conversion.\<close>

lemma toSnakeCase_append: "toSnakeCase (a @ b) = toSnakeCase a @ toSnakeCase b"
  by (induction a) simp_all

lemma toSnakeCase_collision:
  assumes "isUpperAZ c"
  shows "toSnakeCase (a @ c # b) = toSnakeCase (a @ CHR ''_'' # toLowerCase c # b)"
proof -
  from assms have "isLowerAZ (toLowerCase c)" by (simp add: upper_lower)
  then have "\<not> isUpperAZ (toLowerCase c)" by (rule lower_not_upper)
  with assms show ?thesis by (simp add: toSnakeCase_append underscore_no_letter)
qed

lemma toCamelCase_prefix:
  "CHR ''_'' \<notin> set a \<Longrightarrow> toCamelCase (a @ b) = a @ toCamelCase b"
  by (induction a) (auto simp: toCamelCase_Cons_other)

lemma toCamelCase_collision:
  assumes "isLowerAZ c" and "CHR ''_'' \<notin> set a"
  shows "toCamelCase (a @ CHR ''_'' # c # b) = toCamelCase (a @ toUpperCase c # b)"
proof -
  from assms(1) have "isUpperAZ (toUpperCase c)" by (simp add: lower_upper)
  then have "toUpperCase c \<noteq> CHR ''_''" using underscore_no_letter by auto
  with assms show ?thesis by (simp add: toCamelCase_prefix toCamelCase_Cons_other)
qed

subsection \<open>Structure\<close>

lemma keysToSnake_refines:
  "convertible toSnakeCase v \<Longrightarrow> keysToSnake v = renameKeys toSnakeCase v"
proof (induction v rule: keysToSnake.induct)
  case (3 xs)
  then show ?case by (simp add: list_all_iff)
next
  case (4 ps)
  from "4.prems" have plain: "plainObject ps"
    and np: "''__proto__'' \<notin> set (map toSnakeCase (map fst ps))"
    and d: "distinct (map toSnakeCase (map fst ps))"
    and sub: "\<forall>(k, v) \<in> set ps. convertible toSnakeCase v"
    by (auto simp: list_all_iff)
  have vals: "map (\<lambda>(k, v). (toSnakeCase k, keysToSnake v)) ps =
              map (\<lambda>(k, v). (toSnakeCase k, renameKeys toSnakeCase v)) ps"
    using "4.IH"[OF plain] sub by (auto intro!: map_cong)
  from d have "distinct (map fst ([] :: (string \<times> jsval) list) @ map toSnakeCase (map fst ps))"
    by simp
  from foldl_setProp_fresh[OF this, of keysToSnake]
    foldl_assignProp_ordinary[OF np, of keysToSnake "[]"] vals plain
  show ?case by simp
qed simp_all

lemma keysToCamel_refines:
  "convertible toCamelCase v \<Longrightarrow> keysToCamel v = renameKeys toCamelCase v"
proof (induction v rule: keysToCamel.induct)
  case (3 xs)
  then show ?case by (simp add: list_all_iff)
next
  case (4 ps)
  from "4.prems" have plain: "plainObject ps"
    and np: "''__proto__'' \<notin> set (map toCamelCase (map fst ps))"
    and d: "distinct (map toCamelCase (map fst ps))"
    and sub: "\<forall>(k, v) \<in> set ps. convertible toCamelCase v"
    by (auto simp: list_all_iff)
  have vals: "map (\<lambda>(k, v). (toCamelCase k, keysToCamel v)) ps =
              map (\<lambda>(k, v). (toCamelCase k, renameKeys toCamelCase v)) ps"
    using "4.IH"[OF plain] sub by (auto intro!: map_cong)
  from d have "distinct (map fst ([] :: (string \<times> jsval) list) @ map toCamelCase (map fst ps))"
    by simp
  from foldl_setProp_fresh[OF this, of keysToCamel]
    foldl_assignProp_ordinary[OF np, of keysToCamel "[]"] vals plain
  show ?case by simp
qed simp_all

text \<open>
  C8, as the specification states it: over arbitrarily nested data, \<open>keysToSnake\<close> and
  \<open>keysToCamel\<close> preserve structure, rebuilding every plain object with every key
  converted. Three objects refute it. An object with the keys \<open>userInfo\<close> and \<open>user_info\<close>:
  both keys become \<open>user_info\<close>, the result has one property instead of two, and the
  nested object under \<open>userInfo\<close> is gone. An object with an own property \<open>constructor\<close>
  fails the code's test and is returned with its keys unconverted. An object with an own
  property \<open>__proto__\<close> (as \<open>JSON.parse\<close> creates one) loses it: the assignment in the fold
  runs the prototype setter.
\<close>

theorem keysToSnake_structure_counterexample:
  "keysToSnake
     (JObj [(''userInfo'', JObj [(''firstName'', JStr ''Ada'')]), (''user_info'', JArr [JNum 1])])
     = JObj [(''user_info'', JArr [JNum 1])] \<and>
   renameKeys toSnakeCase
     (JObj [(''userInfo'', JObj [(''firstName'', JStr ''Ada'')]), (''user_info'', JArr [JNum 1])])
     = JObj [(''user_info'', JObj [(''first_name'', JStr ''Ada'')]),
             (''user_info'', JArr [JNum 1])] \<and>
   keysToSnake (JObj [(''constructor'', JStr ''acme''), (''fooBar'', JNum 2)])
     = JObj [(''constructor'', JStr ''acme''), (''fooBar'', JNum 2)] \<and>
   renameKeys toSnakeCase (JObj [(''constructor'', JStr ''acme''), (''fooBar'', JNum 2)])
     = JObj [(''constructor'', JStr ''acme''), (''foo_bar'', JNum 2)] \<and>
   keysToSnake (JObj [(''__proto__'', JNum 5), (''fooBar'', JNum 2)])
     = JObj [(''foo_bar'', JNum 2)] \<and>
   renameKeys toSnakeCase (JObj [(''__proto__'', JNum 5), (''fooBar'', JNum 2)])
     = JObj [(''__proto__'', JNum 5), (''foo_bar'', JNum 2)]"
  by code_simp

text \<open>
  C8, amended. Over nested data in which no object has an own property named
  \<open>constructor\<close>, no key converts to \<open>__proto__\<close>, and no two keys of one object convert to
  the same name, \<open>keysToSnake\<close> and \<open>keysToCamel\<close> preserve structure: arrays are mapped
  element by element in order, plain objects are rebuilt property by property in order
  with every key converted, at every nesting level, and every other value (primitives,
  \<open>null\<close>, \<open>undefined\<close>, other objects) is returned unchanged.
\<close>

theorem keys_conversion_preserves_structure:
  "(convertible toSnakeCase v \<longrightarrow> keysToSnake v = renameKeys toSnakeCase v) \<and>
   (convertible toCamelCase v \<longrightarrow> keysToCamel v = renameKeys toCamelCase v)"
  using keysToSnake_refines keysToCamel_refines by blast

theorem keys_conversion_preserves_structure_witness:
  "convertible toSnakeCase
     (JObj [(''userId'', JNum 7),
            (''tag_list'', JArr [JStr ''a'', JObj [(''is_new'', JBool True), (''firstName'', JNull)]])]) \<and>
   convertible toCamelCase
     (JObj [(''userId'', JNum 7),
            (''tag_list'', JArr [JStr ''a'', JObj [(''is_new'', JBool True), (''firstName'', JNull)]])]) \<and>
   keysToSnake
     (JObj [(''userId'', JNum 7),
            (''tag_list'', JArr [JStr ''a'', JObj [(''is_new'', JBool True), (''firstName'', JNull)]])])
     = JObj [(''user_id'', JNum 7),
             (''tag_list'', JArr [JStr ''a'', JObj [(''is_new'', JBool True), (''first_name'', JNull)]])] \<and>
   keysToCamel
     (JObj [(''userId'', JNum 7),
            (''tag_list'', JArr [JStr ''a'', JObj [(''is_new'', JBool True), (''firstName'', JNull)]])])
     = JObj [(''userId'', JNum 7),
             (''tagList'', JArr [JStr ''a'', JObj [(''isNew'', JBool True), (''firstName'', JNull)]])]"
proof -
  let ?v = "JObj [(''userId'', JNum 7),
     (''tag_list'', JArr [JStr ''a'', JObj [(''is_new'', JBool True), (''firstName'', JNull)]])]"
  have s: "convertible toSnakeCase ?v" by code_simp
  have c: "convertible toCamelCase ?v" by code_simp
  have rs: "renameKeys toSnakeCase ?v =
     JObj [(''user_id'', JNum 7),
           (''tag_list'', JArr [JStr ''a'', JObj [(''is_new'', JBool True), (''first_name'', JNull)]])]"
    by code_simp
  have rc: "renameKeys toCamelCase ?v =
     JObj [(''userId'', JNum 7),
           (''tagList'', JArr [JStr ''a'', JObj [(''isNew'', JBool True), (''firstName'', JNull)]])]"
    by code_simp
  from keys_conversion_preserves_structure [of ?v] s c
  have "keysToSnake ?v = renameKeys toSnakeCase ?v" "keysToCamel ?v = renameKeys toCamelCase ?v"
    by blast+
  with s c rs rc show ?thesis by (simp only: simp_thms)
qed

text \<open>
  C10. Key conversion is not injective on objects. Each conversion sends two different
  keys to the same name: \<open>toSnakeCase\<close> a key with a capital and the key with an
  underscore and the lowercase letter in its place, \<open>toCamelCase\<close> a key with an
  underscore before a lowercase letter and the key with the capital in their place.
  Whenever two properties of an object that passes the code's test convert to the same
  name, other than \<open>__proto__\<close>, the rebuilt object has fewer properties than the input,
  and under the shared name it holds the converted value of the last-enumerated of the
  colliding properties. This holds for \<open>keysToSnake\<close> with \<open>toSnakeCase\<close> and for
  \<open>keysToCamel\<close> with \<open>toCamelCase\<close>.
\<close>

theorem colliding_keys_overwrite:
  "(isUpperAZ c \<longrightarrow>
      a @ c # b \<noteq> a @ CHR ''_'' # toLowerCase c # b \<and>
      toSnakeCase (a @ c # b) = toSnakeCase (a @ CHR ''_'' # toLowerCase c # b)) \<and>
   (isLowerAZ c \<and> CHR ''_'' \<notin> set a \<longrightarrow>
      a @ CHR ''_'' # c # b \<noteq> a @ toUpperCase c # b \<and>
      toCamelCase (a @ CHR ''_'' # c # b) = toCamelCase (a @ toUpperCase c # b)) \<and>
   (((conv = toSnakeCase \<and> keysTo = keysToSnake) \<or>
     (conv = toCamelCase \<and> keysTo = keysToCamel)) \<and>
    plainObject ps \<and> i < j \<and> j < length ps \<and>
    conv (fst (ps ! i)) = conv (fst (ps ! j)) \<and>
    (\<forall>l. j < l \<and> l < length ps \<longrightarrow> conv (fst (ps ! l)) \<noteq> conv (fst (ps ! j))) \<and>
    conv (fst (ps ! j)) \<noteq> ''__proto__'' \<longrightarrow>
    (\<exists>qs. keysTo (JObj ps) = JObj qs \<and> length qs < length ps \<and>
          map_of qs (conv (fst (ps ! j))) = Some (keysTo (snd (ps ! j)))))"
proof (intro conjI impI)
  assume "isUpperAZ c"
  then show "toSnakeCase (a @ c # b) = toSnakeCase (a @ CHR ''_'' # toLowerCase c # b)"
    by (rule toSnakeCase_collision)
next
  show "a @ c # b \<noteq> a @ CHR ''_'' # toLowerCase c # b"
  proof
    assume "a @ c # b = a @ CHR ''_'' # toLowerCase c # b"
    then have "length (a @ c # b) = length (a @ CHR ''_'' # toLowerCase c # b)" by simp
    then show False by simp
  qed
next
  assume "isLowerAZ c \<and> CHR ''_'' \<notin> set a"
  then show "toCamelCase (a @ CHR ''_'' # c # b) = toCamelCase (a @ toUpperCase c # b)"
    by (simp add: toCamelCase_collision)
next
  show "a @ CHR ''_'' # c # b \<noteq> a @ toUpperCase c # b"
  proof
    assume "a @ CHR ''_'' # c # b = a @ toUpperCase c # b"
    then have "length (a @ CHR ''_'' # c # b) = length (a @ toUpperCase c # b)" by simp
    then show False by simp
  qed
next
  assume h: "((conv = toSnakeCase \<and> keysTo = keysToSnake) \<or>
     (conv = toCamelCase \<and> keysTo = keysToCamel)) \<and>
    plainObject ps \<and> i < j \<and> j < length ps \<and>
    conv (fst (ps ! i)) = conv (fst (ps ! j)) \<and>
    (\<forall>l. j < l \<and> l < length ps \<longrightarrow> conv (fst (ps ! l)) \<noteq> conv (fst (ps ! j))) \<and>
    conv (fst (ps ! j)) \<noteq> ''__proto__''"
  let ?qs = "foldl (\<lambda>acc (k, v). assignProp (conv k) (keysTo v) acc) [] ps"
  from h have "keysTo (JObj ps) = JObj ?qs" by auto
  moreover from h have c: "i < j" "j < length ps"
    "conv (fst (ps ! i)) = conv (fst (ps ! j))"
    "\<forall>l. j < l \<and> l < length ps \<longrightarrow> conv (fst (ps ! l)) \<noteq> conv (fst (ps ! j))"
    "conv (fst (ps ! j)) \<noteq> ''__proto__''"
    by blast+
  have "length ?qs < length ps \<and>
      map_of ?qs (conv (fst (ps ! j))) = Some (keysTo (snd (ps ! j)))"
    using c by (rule rebuild_collision)
  ultimately show "\<exists>qs. keysTo (JObj ps) = JObj qs \<and> length qs < length ps \<and>
          map_of qs (conv (fst (ps ! j))) = Some (keysTo (snd (ps ! j)))"
    by blast
qed

theorem colliding_keys_overwrite_witness:
  "toSnakeCase ''fooBar'' = ''foo_bar'' \<and> toSnakeCase ''foo_bar'' = ''foo_bar'' \<and>
   (\<exists>qs. keysToSnake (JObj [(''fooBar'', JNum 1), (''foo_bar'', JNum 2)]) = JObj qs \<and>
         length qs < 2 \<and> map_of qs ''foo_bar'' = Some (JNum 2)) \<and>
   toCamelCase ''foo_bar'' = ''fooBar'' \<and> toCamelCase ''fooBar'' = ''fooBar'' \<and>
   (\<exists>qs. keysToCamel (JObj [(''foo_bar'', JNum 1), (''fooBar'', JNum 2)]) = JObj qs \<and>
         length qs < 2 \<and> map_of qs ''fooBar'' = Some (JNum 2))"
proof -
  let ?ps = "[(''fooBar'', JNum 1), (''foo_bar'', JNum 2)]"
  let ?pc = "[(''foo_bar'', JNum 1), (''fooBar'', JNum 2)]"
  have p: "plainObject ?ps" "plainObject ?pc" by (simp_all add: plainObject_def)
  have s1: "toSnakeCase ''fooBar'' = ''foo_bar''" by code_simp
  have s2: "toSnakeCase ''foo_bar'' = ''foo_bar''" by code_simp
  have c1: "toCamelCase ''foo_bar'' = ''fooBar''" by code_simp
  have c2: "toCamelCase ''fooBar'' = ''fooBar''" by code_simp
  have hs: "((toSnakeCase = toSnakeCase \<and> keysToSnake = keysToSnake) \<or>
             (toSnakeCase = toCamelCase \<and> keysToSnake = keysToCamel)) \<and>
            plainObject ?ps \<and> (0::nat) < 1 \<and> 1 < length ?ps \<and>
            toSnakeCase (fst (?ps ! 0)) = toSnakeCase (fst (?ps ! 1)) \<and>
            (\<forall>l. 1 < l \<and> l < length ?ps \<longrightarrow>
               toSnakeCase (fst (?ps ! l)) \<noteq> toSnakeCase (fst (?ps ! 1))) \<and>
            toSnakeCase (fst (?ps ! 1)) \<noteq> ''__proto__''"
    using p s1 s2 by (simp del: toSnakeCase.simps)
  have hc: "((toCamelCase = toSnakeCase \<and> keysToCamel = keysToSnake) \<or>
             (toCamelCase = toCamelCase \<and> keysToCamel = keysToCamel)) \<and>
            plainObject ?pc \<and> (0::nat) < 1 \<and> 1 < length ?pc \<and>
            toCamelCase (fst (?pc ! 0)) = toCamelCase (fst (?pc ! 1)) \<and>
            (\<forall>l. 1 < l \<and> l < length ?pc \<longrightarrow>
               toCamelCase (fst (?pc ! l)) \<noteq> toCamelCase (fst (?pc ! 1))) \<and>
            toCamelCase (fst (?pc ! 1)) \<noteq> ''__proto__''"
    using p c1 c2 by (simp del: toCamelCase.simps)
  from colliding_keys_overwrite
    [of "CHR ''B''" "''foo''" "''ar''" toSnakeCase keysToSnake ?ps 0 1] hs
  obtain qs where "keysToSnake (JObj ?ps) = JObj qs" "length qs < length ?ps"
    "map_of qs (toSnakeCase (fst (?ps ! 1))) = Some (keysToSnake (snd (?ps ! 1)))"
    by blast
  with s2 have snake: "keysToSnake (JObj ?ps) = JObj qs \<and> length qs < 2 \<and>
      map_of qs ''foo_bar'' = Some (JNum 2)"
    by (simp del: toSnakeCase.simps keysToSnake.simps(4))
  from colliding_keys_overwrite
    [of "CHR ''b''" "''foo''" "''ar''" toCamelCase keysToCamel ?pc 0 1] hc
  obtain qc where "keysToCamel (JObj ?pc) = JObj qc" "length qc < length ?pc"
    "map_of qc (toCamelCase (fst (?pc ! 1))) = Some (keysToCamel (snd (?pc ! 1)))"
    by blast
  with c2 have camel: "keysToCamel (JObj ?pc) = JObj qc \<and> length qc < 2 \<and>
      map_of qc ''fooBar'' = Some (JNum 2)"
    by (simp del: toCamelCase.simps keysToCamel.simps(4))
  from s1 s2 snake c1 c2 camel show ?thesis by blast
qed

section \<open>API client: requests and failures\<close>

text \<open>
  JavaScript truthiness, as \<^verbatim>\<open>||\<close> and \<^verbatim>\<open>if\<close> use it: \<open>null\<close>, \<open>undefined\<close>, \<open>false\<close>, zero and
  the empty string are falsy, every object and array is truthy.
\<close>

fun truthy :: "jsval \<Rightarrow> bool" where
  "truthy JNull = False"
| "truthy JUndefined = False"
| "truthy (JBool b) = b"
| "truthy (JNum n) = (n \<noteq> 0)"
| "truthy (JStr s) = (s \<noteq> [])"
| "truthy v = True"

text \<open>\<^verbatim>\<open>String.prototype.includes\<close>: the needle occurs somewhere in the string.\<close>

fun includes_str :: "string \<Rightarrow> string \<Rightarrow> bool" where
  "includes_str [] needle = (needle = [])"
| "includes_str (c # cs) needle =
     (take (length needle) (c # cs) = needle \<or> includes_str cs needle)"

text \<open>
  What \<open>apiRequest\<close> can reject with: the \<^verbatim>\<open>new Error(errorMessage)\<close> it throws itself
  (carried with the value handed to the constructor, which the constructor turns into
  the message string), the \<open>TypeError\<close> of a property read on \<open>null\<close> or \<open>undefined\<close>, and
  whatever \<open>fetch\<close> rejects with.
\<close>

datatype failure = Error jsval | TypeError | FetchRejected

text \<open>
  Reading \<^verbatim>\<open>errorData.message\<close> or \<^verbatim>\<open>errorData.detail\<close>: an object yields its own property
  or \<open>undefined\<close>; \<open>null\<close> and \<open>undefined\<close> have no properties and the read throws; every other
  value is boxed, and no built-in prototype defines \<open>message\<close> or \<open>detail\<close>.
\<close>

fun readProperty :: "jsval \<Rightarrow> string \<Rightarrow> failure + jsval" where
  "readProperty JNull name = Inl TypeError"
| "readProperty JUndefined name = Inl TypeError"
| "readProperty (JObj ps) name =
     Inr (case map_of ps name of Some v \<Rightarrow> v | None \<Rightarrow> JUndefined)"
| "readProperty v name = Inr JUndefined"

record request =
  method_str :: string
  url :: string
  headers :: "(string \<times> string) list"
  body :: "jsval option"

text \<open>
  A response as the code reads it: the status, the status text, and what
  \<^verbatim>\<open>response.json()\<close> resolves to (\<open>None\<close> when it rejects because the body is not JSON).
  \<^verbatim>\<open>response.ok\<close> is true exactly for the statuses 200 to 299.
\<close>

record response =
  status :: nat
  statusText :: string
  json :: "jsval option"

definition ok :: "response \<Rightarrow> bool" where
  "ok r = (200 \<le> status r \<and> status r \<le> 299)"

text \<open>
  The part of the browser \<open>apiRequest\<close> touches: the \<open>auth_token\<close> item of \<open>localStorage\<close>,
  \<^verbatim>\<open>window.location.pathname\<close>, and the last assignment to \<^verbatim>\<open>window.location.href\<close>.
\<close>

record window =
  auth_token :: "string option"
  pathname :: string
  href :: "string option"

text \<open>
  \<open>body\<close> holds the value handed to \<^verbatim>\<open>JSON.stringify\<close>. \<open>fetch\<close> is the network: it answers
  a request with a response or rejects. An omitted \<open>data\<close> argument is \<open>undefined\<close>.
\<close>

definition apiRequest ::
  "string option \<Rightarrow> (request \<Rightarrow> failure + response) \<Rightarrow> window \<Rightarrow>
   string \<Rightarrow> string \<Rightarrow> jsval \<Rightarrow> window \<times> (failure + response)" where
  "apiRequest VITE_API_BASE_URL fetch w meth endpoint data =
     (let token = auth_token w;
          hdrs = [(''Content-Type'', ''application/json'')] @
                 (case token of
                    Some t \<Rightarrow> if t \<noteq> [] then [(''Authorization'', ''Bearer '' @ t)] else []
                  | None \<Rightarrow> []);
          config = \<lparr>method_str = meth, url = [], headers = hdrs,
                    body = (if truthy data \<and>
                               (meth = ''POST'' \<or> meth = ''PUT'' \<or> meth = ''PATCH'')
                            then Some (keysToSnake data) else None)\<rparr>;
          baseUrl = (case VITE_API_BASE_URL of
                       Some b \<Rightarrow> if b \<noteq> [] then b else ''http://localhost:3000''
                     | None \<Rightarrow> ''http://localhost:3000'')
      in case fetch (config\<lparr>url := baseUrl @ endpoint\<rparr>) of
           Inl e \<Rightarrow> (w, Inl e)
         | Inr response \<Rightarrow>
             if \<not> ok response
             then
               (let w' = (if status response = 401
                          then (let w1 = w\<lparr>auth_token := None\<rparr>
                                in if \<not> includes_str (pathname w1) ''/login''
                                   then w1\<lparr>href := Some ''/login''\<rparr> else w1)
                          else w);
                    errorData = (case json response of Some v \<Rightarrow> v | None \<Rightarrow> JObj [])
                in (w',
                    case readProperty errorData ''message'' of
                      Inl e \<Rightarrow> Inl e
                    | Inr m \<Rightarrow>
                        if truthy m then Inl (Error m)
                        else (case readProperty errorData ''detail'' of
                                Inl e \<Rightarrow> Inl e
                              | Inr d \<Rightarrow>
                                  if truthy d then Inl (Error d)
                                  else if statusText response \<noteq> []
                                  then Inl (Error (JStr (statusText response)))
                                  else Inl (Error (JStr ''Request failed'')))))
             else (w, Inr response))"

text \<open>
  The message the specification asks for: the first available (truthy) of the error body's
  \<open>message\<close> field, its \<open>detail\<close> field, the status text, and the generic fallback, where a
  body that has no such field, or is not JSON at all, offers none.
\<close>

definition firstAvailableMessage :: "response \<Rightarrow> jsval" where
  "firstAvailableMessage r =
     (let errorData = (case json r of Some v \<Rightarrow> v | None \<Rightarrow> JObj []);
          m = (case readProperty errorData ''message'' of Inr v \<Rightarrow> v | Inl _ \<Rightarrow> JUndefined);
          d = (case readProperty errorData ''detail'' of Inr v \<Rightarrow> v | Inl _ \<Rightarrow> JUndefined)
      in if truthy m then m else if truthy d then d
         else if statusText r \<noteq> [] then JStr (statusText r) else JStr ''Request failed'')"

lemma apiRequest_success:
  assumes "\<And>req. fetch req = Inr r" and "ok r"
  shows "apiRequest base fetch w meth endpoint data = (w, Inr r)"
  using assms by (simp add: apiRequest_def Let_def)

lemma apiRequest_unauthorized:
  assumes "\<And>req. fetch req = Inr r" and "status r = 401"
  shows "auth_token (fst (apiRequest base fetch w meth endpoint data)) = None \<and>
         href (fst (apiRequest base fetch w meth endpoint data)) =
           (if includes_str (pathname w) ''/login'' then href w else Some ''/login'')"
  using assms by (simp add: apiRequest_def ok_def Let_def)

lemma apiRequest_failure_message:
  assumes "\<And>req. fetch req = Inr r" and "\<not> ok r"
    and "json r \<noteq> Some JNull" and "json r \<noteq> Some JUndefined"
  shows "snd (apiRequest base fetch w meth endpoint data) =
         Inl (Error (firstAvailableMessage r))"
proof -
  let ?e = "case json r of Some v \<Rightarrow> v | None \<Rightarrow> JObj []"
  from assms(3,4) have "?e \<noteq> JNull" "?e \<noteq> JUndefined"
    by (auto split: option.splits)
  then obtain m d where "readProperty ?e ''message'' = Inr m"
    and "readProperty ?e ''detail'' = Inr d"
    by (cases ?e) auto
  with assms(1,2) show ?thesis
    by (simp add: apiRequest_def firstAvailableMessage_def Let_def)
qed

lemma apiRequest_detail_boom:
  "snd (apiRequest None
         (\<lambda>req. Inr \<lparr>status = 500, statusText = ''Internal Server Error'',
                      json = Some (JObj [(''detail'', JStr ''boom'')])\<rparr>)
         \<lparr>auth_token = Some ''t'', pathname = ''/users'', href = None\<rparr>
         ''GET'' ''/api/admin/users/'' JUndefined)
   = Inl (Error (JStr ''boom''))"
  by (simp add: apiRequest_def ok_def Let_def)

text \<open>
  C5. Every non-success response makes \<open>apiRequest\<close> raise a failure whose message is the
  first available of the body's \<open>message\<close> field, its \<open>detail\<close> field, the status text and
  the fallback. The code does so for every error body but one (the three lemmas above):
  a response whose body is the JSON literal \<open>null\<close> parses without error, so the
  \<^verbatim>\<open>.catch(() => ({}))\<close> does not replace it, and reading \<^verbatim>\<open>errorData.message\<close> throws a
  \<open>TypeError\<close> instead of the failure that carries the status text.
\<close>

theorem apiRequest_null_body:
  "snd (apiRequest None
         (\<lambda>req. Inr \<lparr>status = 500, statusText = ''Internal Server Error'', json = Some JNull\<rparr>)
         \<lparr>auth_token = Some ''t'', pathname = ''/users'', href = None\<rparr>
         ''GET'' ''/api/admin/users/'' JUndefined)
   = Inl TypeError \<and>
   firstAvailableMessage
     \<lparr>status = 500, statusText = ''Internal Server Error'', json = Some JNull\<rparr>
   = JStr ''Internal Server Error''"
  by (simp add: apiRequest_def ok_def firstAvailableMessage_def Let_def)


section \<open>Connection manager\<close>

text \<open>
  \<open>useGlobalPresence\<close> keeps two pieces of React state (\<open>userStatuses\<close>, \<open>typingStatuses\<close>)
  and seven refs, and registers handlers on a \<open>WebSocket\<close> and on timers. The model is a
  record of that state together with the part of the browser the handlers act on: the
  \<open>auth_token\<close> item of \<open>localStorage\<close>, the pending timers, the sockets created so far, the
  messages sent, and the calls made to subscribers. Each handler is a function on this
  record; the browser and React are the environment that picks the next event.

  Objects used as dictionaries are lists of own properties as above. An object literal
  with a computed key, \<^verbatim>\<open>{...prev, [id]: value}\<close>, defines an own property for every key
  (\<open>setProp\<close>); the assignment \<^verbatim>\<open>statuses[userId] = value\<close> is \<open>assignProp\<close>. A typing timer's
  key contains a hyphen, so the assignment that stores its handle is always an ordinary
  write. Reading \<^verbatim>\<open>obj[id]\<close> yields the own property, and where there is none the code's
  default; this is exact for every id that does not name a property the object inherits
  (such as \<open>constructor\<close> or \<open>toString\<close>). The engine enumerates integer-like keys
  before the others; the code enumerates only \<open>data.statuses\<close>, whose list is taken in
  that order. Timer handles and sockets
  are numbered from 1 in the order of creation, so every handle is truthy, as in a
  browser. Subscriber callbacks are function values, compared by identity: a callback is
  a number, and calling it is recorded in \<open>invoked\<close>.
\<close>

definition deleteProp :: "'k \<Rightarrow> ('k \<times> 'v) list \<Rightarrow> ('k \<times> 'v) list" where
  "deleteProp k ps = filter (\<lambda>p. fst p \<noteq> k) ps"

record UserStatus =
  isOnline :: bool
  isTyping :: bool

datatype readyState = CONNECTING | OPEN | CLOSING | CLOSED

text \<open>
  A parsed push, by its \<open>type\<close> field. \<open>is_typing\<close> of a \<open>user_status\<close> push may be absent.
\<close>

datatype serverMsg =
    InitialStatuses "(string \<times> bool) list"
  | UserStatusMsg string bool "bool option"
  | TypingStatusMsg string string bool
  | NewMessageMsg string string string
  | MessageStatusUpdateMsg string string
  | MatchStatusUpdateMsg string bool
  | OtherMsg

datatype clientMsg = Ping | Typing string bool

text \<open>
  What a pending timer does when it fires: the heartbeat of a socket, the reconnect of
  the effect that was given a token, the expiry of a typing flag.
\<close>

datatype timerAction =
    HeartbeatTick nat
  | Reconnect string
  | TypingExpiry string string

record timer =
  due :: nat
  period :: "nat option"
  action :: timerAction

datatype listenerCall =
    NewMessageData nat string string string
  | MessageStatusUpdate nat string string
  | MatchStatusUpdate nat string bool

record manager =
  userStatuses :: "(string \<times> UserStatus) list"
  typingStatuses :: "(string \<times> (string \<times> bool) list) list"
  wsRef :: "nat option"
  heartbeatIntervalRef :: "nat option"
  reconnectTimeoutRef :: "nat option"
  typingTimeoutsRef :: "(string \<times> nat) list"
  messageListenersRef :: "nat list"
  messageStatusListenersRef :: "nat list"
  matchStatusListenersRef :: "nat list"
  storedToken :: "string option"
  clock :: nat
  timers :: "(nat \<times> timer) list"
  nextTimerId :: nat
  sockets :: "(nat \<times> string \<times> readyState) list"
  nextSocketId :: nat
  sent :: "(nat \<times> clientMsg) list"
  invoked :: "listenerCall list"

definition initial :: manager where
  "initial = \<lparr>userStatuses = [], typingStatuses = [], wsRef = None,
     heartbeatIntervalRef = None, reconnectTimeoutRef = None, typingTimeoutsRef = [],
     messageListenersRef = [], messageStatusListenersRef = [], matchStatusListenersRef = [],
     storedToken = None, clock = 0, timers = [], nextTimerId = 1, sockets = [],
     nextSocketId = 1, sent = [], invoked = []\<rparr>"

subsection \<open>Timers and sockets\<close>

definition setTimeout :: "timerAction \<Rightarrow> nat \<Rightarrow> manager \<Rightarrow> nat \<times> manager" where
  "setTimeout a ms st =
     (nextTimerId st,
      st\<lparr>timers := timers st @
             [(nextTimerId st, \<lparr>due = clock st + ms, period = None, action = a\<rparr>)],
         nextTimerId := nextTimerId st + 1\<rparr>)"

definition setInterval :: "timerAction \<Rightarrow> nat \<Rightarrow> manager \<Rightarrow> nat \<times> manager" where
  "setInterval a ms st =
     (nextTimerId st,
      st\<lparr>timers := timers st @
             [(nextTimerId st, \<lparr>due = clock st + ms, period = Some ms, action = a\<rparr>)],
         nextTimerId := nextTimerId st + 1\<rparr>)"

definition clearTimeout :: "nat \<Rightarrow> manager \<Rightarrow> manager" where
  "clearTimeout h st = st\<lparr>timers := deleteProp h (timers st)\<rparr>"

definition clearInterval :: "nat \<Rightarrow> manager \<Rightarrow> manager" where
  "clearInterval h st = st\<lparr>timers := deleteProp h (timers st)\<rparr>"

definition readyStateOf :: "manager \<Rightarrow> nat \<Rightarrow> readyState" where
  "readyStateOf st ws = (case map_of (sockets st) ws of Some (_, r) \<Rightarrow> r | None \<Rightarrow> CLOSED)"

definition setReadyState :: "nat \<Rightarrow> readyState \<Rightarrow> manager \<Rightarrow> manager" where
  "setReadyState ws r st =
     (case map_of (sockets st) ws of
        Some (token, _) \<Rightarrow> st\<lparr>sockets := setProp ws (token, r) (sockets st)\<rparr>
      | None \<Rightarrow> st)"

text \<open>\<^verbatim>\<open>ws.close()\<close> starts the closing handshake of a socket that is not yet closing.\<close>

definition close :: "nat \<Rightarrow> manager \<Rightarrow> manager" where
  "close ws st =
     (if readyStateOf st ws = CONNECTING \<or> readyStateOf st ws = OPEN
      then setReadyState ws CLOSING st else st)"

subsection \<open>The effect and its handlers\<close>

text \<open>
  \<open>connect\<close> creates the socket for the token the effect read and stores it in \<open>wsRef\<close>;
  the handlers it installs are the functions below.
\<close>

definition connect :: "string \<Rightarrow> manager \<Rightarrow> manager" where
  "connect token st =
     st\<lparr>sockets := sockets st @ [(nextSocketId st, token, CONNECTING)],
        nextSocketId := nextSocketId st + 1,
        wsRef := Some (nextSocketId st)\<rparr>"

definition onopen :: "nat \<Rightarrow> manager \<Rightarrow> manager" where
  "onopen ws st =
     (let st1 = (case heartbeatIntervalRef st of
                   Some h \<Rightarrow> clearInterval h st | None \<Rightarrow> st);
          (h, st2) = setInterval (HeartbeatTick ws) 30000 st1
      in st2\<lparr>heartbeatIntervalRef := Some h\<rparr>)"

text \<open>The key of a typing timer is the template string \<^verbatim>\<open>`${data.match_id}-${data.user_id}`\<close>.\<close>

definition typingKey :: "string \<Rightarrow> string \<Rightarrow> string" where
  "typingKey match_id user_id = match_id @ ''-'' @ user_id"

text \<open>
  \<^verbatim>\<open>{...prev, [match_id]: {...prev[match_id], [user_id]: flag}}\<close>: spreading \<open>undefined\<close>
  contributes nothing.
\<close>

definition setTyping ::
  "string \<Rightarrow> string \<Rightarrow> bool \<Rightarrow> (string \<times> (string \<times> bool) list) list \<Rightarrow>
   (string \<times> (string \<times> bool) list) list" where
  "setTyping match_id user_id flag prev =
     setProp match_id
       (setProp user_id flag (case map_of prev match_id of Some m \<Rightarrow> m | None \<Rightarrow> []))
       prev"

definition onmessage :: "serverMsg \<Rightarrow> manager \<Rightarrow> manager" where
  "onmessage data st =
     (case data of
        InitialStatuses statuses \<Rightarrow>
          st\<lparr>userStatuses :=
               foldl (\<lambda>acc (userId, on).
                        assignProp userId \<lparr>isOnline = on, isTyping = False\<rparr> acc)
                 [] statuses\<rparr>
      | UserStatusMsg user_id is_online is_typing \<Rightarrow>
          st\<lparr>userStatuses :=
               setProp user_id
                 \<lparr>isOnline = is_online,
                  isTyping = (case is_typing of Some b \<Rightarrow> b | None \<Rightarrow> False)\<rparr>
                 (userStatuses st)\<rparr>
      | TypingStatusMsg match_id user_id is_typing \<Rightarrow>
          (let key = typingKey match_id user_id;
               st1 = (case map_of (typingTimeoutsRef st) key of
                        Some h \<Rightarrow> clearTimeout h st | None \<Rightarrow> st);
               st2 = st1\<lparr>typingStatuses :=
                          setTyping match_id user_id is_typing (typingStatuses st1)\<rparr>
           in if is_typing
              then (let (h, st3) = setTimeout (TypingExpiry match_id user_id) 3000 st2
                    in st3\<lparr>typingTimeoutsRef := setProp key h (typingTimeoutsRef st3)\<rparr>)
              else st2)
      | NewMessageMsg match_id message_id sender_id \<Rightarrow>
          st\<lparr>invoked := invoked st @
               map (\<lambda>listener. NewMessageData listener match_id message_id sender_id)
                 (messageListenersRef st)\<rparr>
      | MessageStatusUpdateMsg message_id status' \<Rightarrow>
          st\<lparr>invoked := invoked st @
               map (\<lambda>listener. MessageStatusUpdate listener message_id status')
                 (messageStatusListenersRef st)\<rparr>
      | MatchStatusUpdateMsg match_id is_active \<Rightarrow>
          st\<lparr>invoked := invoked st @
               map (\<lambda>listener. MatchStatusUpdate listener match_id is_active)
                 (matchStatusListenersRef st)\<rparr>
      | OtherMsg \<Rightarrow> st)"

text \<open>
  \<open>onclose\<close> belongs to a socket created by \<open>connect token\<close>; the reconnect it schedules
  calls that same \<open>connect\<close> again.
\<close>

definition onclose :: "string \<Rightarrow> manager \<Rightarrow> manager" where
  "onclose token st =
     (let st1 = (case heartbeatIntervalRef st of
                   Some h \<Rightarrow> clearInterval h st | None \<Rightarrow> st)
      in case storedToken st1 of
           Some currentToken \<Rightarrow>
             if currentToken \<noteq> []
             then (let (h, st2) = setTimeout (Reconnect token) 3000 st1
                   in st2\<lparr>reconnectTimeoutRef := Some h\<rparr>)
             else st1
         | None \<Rightarrow> st1)"

definition effect :: "manager \<Rightarrow> manager" where
  "effect st =
     (case storedToken st of
        Some token \<Rightarrow> if token \<noteq> [] then connect token st else st
      | None \<Rightarrow> st)"

definition cleanup :: "manager \<Rightarrow> manager" where
  "cleanup st =
     (let st1 = (case heartbeatIntervalRef st of
                   Some h \<Rightarrow> clearInterval h st | None \<Rightarrow> st);
          st2 = (case reconnectTimeoutRef st1 of
                   Some h \<Rightarrow> clearTimeout h st1 | None \<Rightarrow> st1);
          st3 = foldl (\<lambda>s timeout. clearTimeout timeout s) st2 (map snd (typingTimeoutsRef st2))
      in case wsRef st3 of Some ws \<Rightarrow> close ws st3 | None \<Rightarrow> st3)"

text \<open>A timer callback: the heartbeat, the reconnect, the expiry of a typing flag.\<close>

definition fire :: "timerAction \<Rightarrow> manager \<Rightarrow> manager" where
  "fire a st =
     (case a of
        HeartbeatTick ws \<Rightarrow>
          if readyStateOf st ws = OPEN then st\<lparr>sent := sent st @ [(ws, Ping)]\<rparr> else st
      | Reconnect token \<Rightarrow> connect token st
      | TypingExpiry match_id user_id \<Rightarrow>
          st\<lparr>typingStatuses := setTyping match_id user_id False (typingStatuses st),
             typingTimeoutsRef :=
               deleteProp (typingKey match_id user_id) (typingTimeoutsRef st)\<rparr>)"

subsection \<open>Operations offered to the views\<close>

definition sendTypingStatus :: "string \<Rightarrow> bool \<Rightarrow> manager \<Rightarrow> manager" where
  "sendTypingStatus matchId typing st =
     (case wsRef st of
        Some ws \<Rightarrow>
          if readyStateOf st ws = OPEN
          then st\<lparr>sent := sent st @ [(ws, Typing matchId typing)]\<rparr> else st
      | None \<Rightarrow> st)"

definition getUserStatus :: "manager \<Rightarrow> string \<Rightarrow> UserStatus" where
  "getUserStatus st userId =
     (case map_of (userStatuses st) userId of
        Some s \<Rightarrow> s | None \<Rightarrow> \<lparr>isOnline = False, isTyping = False\<rparr>)"

definition isUserTypingInMatch :: "manager \<Rightarrow> string \<Rightarrow> string \<Rightarrow> bool" where
  "isUserTypingInMatch st userId matchId =
     (case map_of (typingStatuses st) matchId of
        Some m \<Rightarrow> (case map_of m userId of Some b \<Rightarrow> b | None \<Rightarrow> False)
      | None \<Rightarrow> False)"

text \<open>
  A JavaScript \<open>Set\<close> of callbacks, in insertion order: adding a member again changes
  nothing, deleting an absent one neither.
\<close>

definition setAdd :: "'a \<Rightarrow> 'a list \<Rightarrow> 'a list" where
  "setAdd x xs = (if x \<in> set xs then xs else xs @ [x])"

definition setDelete :: "'a \<Rightarrow> 'a list \<Rightarrow> 'a list" where
  "setDelete x xs = removeAll x xs"

text \<open>
  Each subscription returns the new state and the unsubscribe function, a closure over
  the callback.
\<close>

definition onNewMessage :: "nat \<Rightarrow> manager \<Rightarrow> manager \<times> (manager \<Rightarrow> manager)" where
  "onNewMessage callback st =
     (st\<lparr>messageListenersRef := setAdd callback (messageListenersRef st)\<rparr>,
      \<lambda>st'. st'\<lparr>messageListenersRef := setDelete callback (messageListenersRef st')\<rparr>)"

definition onMessageStatusUpdate :: "nat \<Rightarrow> manager \<Rightarrow> manager \<times> (manager \<Rightarrow> manager)" where
  "onMessageStatusUpdate callback st =
     (st\<lparr>messageStatusListenersRef := setAdd callback (messageStatusListenersRef st)\<rparr>,
      \<lambda>st'. st'\<lparr>messageStatusListenersRef :=
                 setDelete callback (messageStatusListenersRef st')\<rparr>)"

definition onMatchStatusUpdate :: "nat \<Rightarrow> manager \<Rightarrow> manager \<times> (manager \<Rightarrow> manager)" where
  "onMatchStatusUpdate callback st =
     (st\<lparr>matchStatusListenersRef := setAdd callback (matchStatusListenersRef st)\<rparr>,
      \<lambda>st'. st'\<lparr>matchStatusListenersRef := setDelete callback (matchStatusListenersRef st')\<rparr>)"

subsection \<open>The environment\<close>

text \<open>
  What can happen next. A write to \<open>localStorage\<close> (login, logout); React running the
  effect (on mount, and again after \<open>token\<close> changed) or its cleanup (on unmount, and
  before the effect runs again); the browser opening a connecting socket, delivering a
  message on an open one, or reporting the close of a socket that is not closed yet,
  which is what follows \<^verbatim>\<open>ws.close()\<close> as well as a lost connection; a pending timer
  firing when it is due; time passing, but never past a pending timer. An event that
  cannot happen in the current state yields \<open>None\<close>.
\<close>

datatype event =
    StorageWrite "string option"
  | RunEffect
  | RunCleanup
  | SocketOpened nat
  | SocketMessage nat serverMsg
  | SocketClosed nat
  | TimerFired nat
  | Elapse nat

definition step :: "event \<Rightarrow> manager \<Rightarrow> manager option" where
  "step e st =
     (case e of
        StorageWrite t \<Rightarrow> Some (st\<lparr>storedToken := t\<rparr>)
      | RunEffect \<Rightarrow> Some (effect st)
      | RunCleanup \<Rightarrow> Some (cleanup st)
      | SocketOpened ws \<Rightarrow>
          if readyStateOf st ws = CONNECTING
          then Some (onopen ws (setReadyState ws OPEN st)) else None
      | SocketMessage ws data \<Rightarrow>
          if readyStateOf st ws = OPEN then Some (onmessage data st) else None
      | SocketClosed ws \<Rightarrow>
          (case map_of (sockets st) ws of
             Some (token, r) \<Rightarrow>
               if r \<noteq> CLOSED then Some (onclose token (setReadyState ws CLOSED st)) else None
           | None \<Rightarrow> None)
      | TimerFired h \<Rightarrow>
          (case map_of (timers st) h of
             Some t \<Rightarrow>
               if due t \<le> clock st
               then Some (fire (action t)
                      (case period t of
                         Some p \<Rightarrow> st\<lparr>timers := setProp h (t\<lparr>due := due t + p\<rparr>) (timers st)\<rparr>
                       | None \<Rightarrow> st\<lparr>timers := deleteProp h (timers st)\<rparr>))
               else None
           | None \<Rightarrow> None)
      | Elapse ms \<Rightarrow>
          if list_all (\<lambda>(h, t). clock st + ms \<le> due t) (timers st)
          then Some (st\<lparr>clock := clock st + ms\<rparr>) else None)"

fun run :: "event list \<Rightarrow> manager \<Rightarrow> manager option" where
  "run [] st = Some st"
| "run (e # es) st = (case step e st of Some st' \<Rightarrow> run es st' | None \<Rightarrow> None)"

lemmas manager_defs =
  initial_def step_def effect_def connect_def readyStateOf_def setReadyState_def onopen_def
  setInterval_def setTimeout_def clearTimeout_def clearInterval_def deleteProp_def close_def
  onclose_def cleanup_def fire_def onmessage_def typingKey_def setTyping_def
  getUserStatus_def isUserTypingInMatch_def assignProp_def


subsection \<open>Presence\<close>

lemma onmessage_InitialStatuses:
  assumes "distinct (map fst statuses)" and "''__proto__'' \<notin> set (map fst statuses)"
  shows "onmessage (InitialStatuses statuses) st =
         st\<lparr>userStatuses :=
              map (\<lambda>(userId, on). (userId, \<lparr>isOnline = on, isTyping = False\<rparr>)) statuses\<rparr>"
proof -
  from assms(1) have "distinct (map fst ([] :: (string \<times> UserStatus) list) @
                     map (\<lambda>k. k) (map fst statuses))"
    by simp
  moreover from assms(2) have "''__proto__'' \<notin> set (map (\<lambda>k. k) (map fst statuses))"
    by simp
  ultimately show ?thesis
    using foldl_setProp_fresh[of "[]" "\<lambda>k. k" statuses
            "\<lambda>on. \<lparr>isOnline = on, isTyping = False\<rparr>"]
      foldl_assignProp_ordinary[of "\<lambda>k. k" statuses
            "\<lambda>on. \<lparr>isOnline = on, isTyping = False\<rparr>" "[]"]
    by (simp add: onmessage_def)
qed

text \<open>
  An \<open>initial_statuses\<close> push that lists no user named \<open>__proto__\<close> replaces the entire
  presence map (\<open>data.statuses\<close> is an object, so its keys are pairwise distinct): the map
  then consists of exactly one entry per listed pair, in order, with \<open>isOnline\<close> the
  listed flag and \<open>isTyping\<close> false; it does not depend on the map before the push, and
  a user that is not listed has no entry.
\<close>

lemma initial_statuses_replace:
  assumes "distinct (map fst statuses)" and "''__proto__'' \<notin> set (map fst statuses)"
  shows "userStatuses (onmessage (InitialStatuses statuses) st) =
           map (\<lambda>(userId, on). (userId, \<lparr>isOnline = on, isTyping = False\<rparr>)) statuses \<and>
         (\<forall>userId on. (userId, on) \<in> set statuses \<longrightarrow>
            map_of (userStatuses (onmessage (InitialStatuses statuses) st)) userId =
              Some \<lparr>isOnline = on, isTyping = False\<rparr>) \<and>
         (\<forall>userId. userId \<notin> fst ` set statuses \<longrightarrow>
            map_of (userStatuses (onmessage (InitialStatuses statuses) st)) userId = None)"
proof -
  let ?new = "map (\<lambda>(userId, on). (userId, \<lparr>isOnline = on, isTyping = False\<rparr>)) statuses"
  have eq: "userStatuses (onmessage (InitialStatuses statuses) st) = ?new"
    by (simp add: onmessage_InitialStatuses[OF assms])
  have keys: "map fst ?new = map fst statuses"
    by (induction statuses) auto
  have listed: "map_of ?new userId = Some \<lparr>isOnline = on, isTyping = False\<rparr>"
    if "(userId, on) \<in> set statuses" for userId on
  proof -
    from assms(1) have "distinct (map fst ?new)" by (simp only: keys)
    moreover from that have "(userId, \<lparr>isOnline = on, isTyping = False\<rparr>) \<in> set ?new"
      by force
    ultimately show ?thesis by (rule map_of_is_SomeI)
  qed
  have gone: "map_of ?new userId = None" if "userId \<notin> fst ` set statuses" for userId
  proof -
    from that keys have "userId \<notin> fst ` set ?new"
      by (metis list.set_map)
    then show ?thesis by (simp add: map_of_eq_None_iff)
  qed
  from eq listed gone show ?thesis by simp
qed

lemma initial_statuses_u1_u2:
  "userStatuses (onmessage (InitialStatuses [(''u1'', True), (''u2'', False)])
                  (onmessage (UserStatusMsg ''u0'' True (Some True)) initial))
     = [(''u1'', \<lparr>isOnline = True, isTyping = False\<rparr>),
        (''u2'', \<lparr>isOnline = False, isTyping = False\<rparr>)]"
  by (simp add: onmessage_def assignProp_def)

text \<open>
  C6. After an \<open>initial_statuses\<close> push the presence map contains exactly one entry per
  listed pair. The code builds the map with \<^verbatim>\<open>statuses[userId] = {...}\<close>; for a listed
  user whose id is \<open>__proto__\<close> this assignment runs the prototype setter and adds no
  entry, so a push that lists two users leaves a map with one. The \<open>user_status\<close> branch,
  which writes the entry with a computed key in an object literal, does create the entry
  for the same id.
\<close>

theorem initial_statuses_proto_id:
  "userStatuses (onmessage (InitialStatuses [(''__proto__'', True), (''u1'', False)]) initial)
     = [(''u1'', \<lparr>isOnline = False, isTyping = False\<rparr>)] \<and>
   map_of (userStatuses
      (onmessage (InitialStatuses [(''__proto__'', True), (''u1'', False)]) initial))
      ''__proto__'' = None \<and>
   map_of (userStatuses (onmessage (UserStatusMsg ''__proto__'' True None) initial))
      ''__proto__'' = Some \<lparr>isOnline = True, isTyping = False\<rparr>"
  by (simp add: onmessage_def assignProp_def initial_def)

text \<open>
  C1, as the specification states it: a \<open>user_status\<close> push that omits \<open>is_typing\<close>
  preserves the entry's \<open>isTyping\<close>. The code writes \<^verbatim>\<open>data.is_typing || false\<close>: after a
  push that set \<open>isTyping\<close> for \<open>u1\<close>, a push for \<open>u1\<close> without \<open>is_typing\<close> resets it.
\<close>

theorem user_status_omitted_typing_counterexample:
  "isTyping (getUserStatus (onmessage (UserStatusMsg ''u1'' True (Some True)) initial) ''u1'')
     = True \<and>
   isTyping (getUserStatus
       (onmessage (UserStatusMsg ''u1'' True None)
          (onmessage (UserStatusMsg ''u1'' True (Some True)) initial)) ''u1'')
     = False"
  by (simp add: getUserStatus_def onmessage_def initial_def)

text \<open>
  C1, amended. A \<open>user_status\<close> push upserts that user's presence entry with \<open>isOnline\<close>
  the pushed flag and \<open>isTyping\<close> the pushed value when the message includes one and
  false when it omits it; the entries of all other users are unchanged.
\<close>

theorem user_status_upsert:
  "map_of (userStatuses (onmessage (UserStatusMsg user_id is_online is_typing) st)) user_id =
     Some \<lparr>isOnline = is_online,
           isTyping = (case is_typing of Some b \<Rightarrow> b | None \<Rightarrow> False)\<rparr> \<and>
   (\<forall>other. other \<noteq> user_id \<longrightarrow>
      map_of (userStatuses (onmessage (UserStatusMsg user_id is_online is_typing) st)) other =
      map_of (userStatuses st) other)"
  by (simp add: onmessage_def map_of_setProp)

theorem user_status_upsert_witness:
  "''u2'' \<noteq> ''u1'' \<and>
   getUserStatus (onmessage (UserStatusMsg ''u1'' False None)
     (onmessage (InitialStatuses [(''u1'', True), (''u2'', True)]) initial)) ''u1''
     = \<lparr>isOnline = False, isTyping = False\<rparr> \<and>
   getUserStatus (onmessage (UserStatusMsg ''u1'' False None)
     (onmessage (InitialStatuses [(''u1'', True), (''u2'', True)]) initial)) ''u2''
     = getUserStatus (onmessage (InitialStatuses [(''u1'', True), (''u2'', True)]) initial) ''u2''"
proof -
  let ?st = "onmessage (InitialStatuses [(''u1'', True), (''u2'', True)]) initial"
  have ne: "''u2'' \<noteq> ''u1''" by simp
  from user_status_upsert [of "''u1''" False None ?st] ne
  have "map_of (userStatuses (onmessage (UserStatusMsg ''u1'' False None) ?st)) ''u1'' =
          Some \<lparr>isOnline = False, isTyping = False\<rparr>"
    and "map_of (userStatuses (onmessage (UserStatusMsg ''u1'' False None) ?st)) ''u2'' =
          map_of (userStatuses ?st) ''u2''"
    by simp_all
  then show ?thesis by (simp add: getUserStatus_def)
qed

subsection \<open>Subscriptions\<close>

lemma set_setAdd: "set (setAdd x xs) = insert x (set xs)"
  by (auto simp: setAdd_def)

lemma set_setDelete: "set (setDelete x xs) = set xs - {x}"
  by (auto simp: setDelete_def)

lemma setDelete_idem: "setDelete x (setDelete x xs) = setDelete x xs"
  by (simp add: setDelete_def)

lemma setDelete_setAdd_other: "x \<noteq> y \<Longrightarrow> setDelete x (setAdd y xs) = setAdd y (setDelete x xs)"
  by (simp add: setDelete_def setAdd_def)

lemma setDelete_setAdd_same: "setDelete x (setAdd x xs) = setDelete x xs"
  by (simp add: setDelete_def setAdd_def)

lemma distinct_setAdd: "distinct xs \<Longrightarrow> distinct (setAdd x xs)"
  by (simp add: setAdd_def)

lemma distinct_setDelete: "distinct xs \<Longrightarrow> distinct (setDelete x xs)"
  by (simp add: setDelete_def distinct_removeAll)

text \<open>
  C9. Each of \<open>onNewMessage\<close>, \<open>onMessageStatusUpdate\<close> and \<open>onMatchStatusUpdate\<close> adds the
  callback to its listener set and returns an unsubscribe function; whenever that
  function is called it removes exactly this callback from the set, and calling it again
  changes nothing. After two different callbacks \<open>c1\<close> and \<open>c2\<close> subscribed with
  \<open>onNewMessage\<close> and \<open>c1\<close> unsubscribed, a \<open>new_message\<close> push calls \<open>c2\<close> and not \<open>c1\<close>:
  it calls the earlier subscribers other than \<open>c1\<close> and then \<open>c2\<close>, each once with the
  pushed ids, and just \<open>c2\<close> when there were no earlier subscribers.
\<close>

theorem listener_subscriptions:
  fixes st st' :: manager and c1 c2 cb :: nat
  defines "s1 \<equiv> fst (onNewMessage c1 st)" and "u1 \<equiv> snd (onNewMessage c1 st)"
  defines "s2 \<equiv> fst (onNewMessage c2 s1)"
  defines "s3 \<equiv> u1 s2"
  shows "set (messageListenersRef (fst (onNewMessage cb st))) =
           insert cb (set (messageListenersRef st)) \<and>
         set (messageListenersRef (snd (onNewMessage cb st) st')) =
           set (messageListenersRef st') - {cb} \<and>
         snd (onNewMessage cb st) (snd (onNewMessage cb st) st') = snd (onNewMessage cb st) st' \<and>
         set (messageStatusListenersRef (fst (onMessageStatusUpdate cb st))) =
           insert cb (set (messageStatusListenersRef st)) \<and>
         set (messageStatusListenersRef (snd (onMessageStatusUpdate cb st) st')) =
           set (messageStatusListenersRef st') - {cb} \<and>
         snd (onMessageStatusUpdate cb st) (snd (onMessageStatusUpdate cb st) st') =
           snd (onMessageStatusUpdate cb st) st' \<and>
         set (matchStatusListenersRef (fst (onMatchStatusUpdate cb st))) =
           insert cb (set (matchStatusListenersRef st)) \<and>
         set (matchStatusListenersRef (snd (onMatchStatusUpdate cb st) st')) =
           set (matchStatusListenersRef st') - {cb} \<and>
         snd (onMatchStatusUpdate cb st) (snd (onMatchStatusUpdate cb st) st') =
           snd (onMatchStatusUpdate cb st) st' \<and>
         (c1 \<noteq> c2 \<longrightarrow>
            invoked (onmessage (NewMessageMsg match_id message_id sender_id) s3) =
              invoked st @
              map (\<lambda>listener. NewMessageData listener match_id message_id sender_id)
                (setAdd c2 (setDelete c1 (messageListenersRef st))) \<and>
            c2 \<in> set (messageListenersRef s3) \<and> c1 \<notin> set (messageListenersRef s3) \<and>
            (messageListenersRef st = [] \<longrightarrow>
               invoked (onmessage (NewMessageMsg match_id message_id sender_id) s3) =
                 invoked st @ [NewMessageData c2 match_id message_id sender_id]))"
proof -
  have reg: "set (messageListenersRef (fst (onNewMessage cb st))) =
               insert cb (set (messageListenersRef st))"
    "set (messageStatusListenersRef (fst (onMessageStatusUpdate cb st))) =
               insert cb (set (messageStatusListenersRef st))"
    "set (matchStatusListenersRef (fst (onMatchStatusUpdate cb st))) =
               insert cb (set (matchStatusListenersRef st))"
    by (simp_all add: onNewMessage_def onMessageStatusUpdate_def onMatchStatusUpdate_def
        set_setAdd)
  have unsub: "set (messageListenersRef (snd (onNewMessage cb st) st')) =
                 set (messageListenersRef st') - {cb}"
    "set (messageStatusListenersRef (snd (onMessageStatusUpdate cb st) st')) =
                 set (messageStatusListenersRef st') - {cb}"
    "set (matchStatusListenersRef (snd (onMatchStatusUpdate cb st) st')) =
                 set (matchStatusListenersRef st') - {cb}"
    by (simp_all add: onNewMessage_def onMessageStatusUpdate_def onMatchStatusUpdate_def
        set_setDelete)
  have idem: "snd (onNewMessage cb st) (snd (onNewMessage cb st) st') =
                snd (onNewMessage cb st) st'"
    "snd (onMessageStatusUpdate cb st) (snd (onMessageStatusUpdate cb st) st') =
                snd (onMessageStatusUpdate cb st) st'"
    "snd (onMatchStatusUpdate cb st) (snd (onMatchStatusUpdate cb st) st') =
                snd (onMatchStatusUpdate cb st) st'"
    by (simp_all add: onNewMessage_def onMessageStatusUpdate_def onMatchStatusUpdate_def
        setDelete_idem)
  have scenario: "invoked (onmessage (NewMessageMsg match_id message_id sender_id) s3) =
              invoked st @
              map (\<lambda>listener. NewMessageData listener match_id message_id sender_id)
                (setAdd c2 (setDelete c1 (messageListenersRef st))) \<and>
            c2 \<in> set (messageListenersRef s3) \<and> c1 \<notin> set (messageListenersRef s3) \<and>
            (messageListenersRef st = [] \<longrightarrow>
               invoked (onmessage (NewMessageMsg match_id message_id sender_id) s3) =
                 invoked st @ [NewMessageData c2 match_id message_id sender_id])"
    if ne: "c1 \<noteq> c2"
  proof -
    have l3: "messageListenersRef s3 = setAdd c2 (setDelete c1 (messageListenersRef st))"
      unfolding s3_def u1_def s2_def s1_def
      using ne by (simp add: onNewMessage_def setDelete_setAdd_other setDelete_setAdd_same)
    have inv3: "invoked s3 = invoked st"
      unfolding s3_def u1_def s2_def s1_def by (simp add: onNewMessage_def)
    have calls: "invoked (onmessage (NewMessageMsg match_id message_id sender_id) s3) =
        invoked s3 @ map (\<lambda>listener. NewMessageData listener match_id message_id sender_id)
          (messageListenersRef s3)"
      by (simp add: onmessage_def)
    from ne have mem: "c2 \<in> set (messageListenersRef s3)" "c1 \<notin> set (messageListenersRef s3)"
      unfolding l3 by (auto simp: set_setAdd set_setDelete)
    have "messageListenersRef st = [] \<Longrightarrow> messageListenersRef s3 = [c2]"
      unfolding l3 by (simp add: setAdd_def setDelete_def)
    with calls l3 inv3 mem show ?thesis by simp
  qed
  from reg unsub idem scenario show ?thesis by blast
qed

theorem listener_subscriptions_witness:
  "(1::nat) \<noteq> 2 \<and> messageListenersRef initial = [] \<and>
   invoked (onmessage (NewMessageMsg ''m1'' ''msg7'' ''u1'')
     (snd (onNewMessage 1 initial) (fst (onNewMessage 2 (fst (onNewMessage 1 initial))))))
   = [NewMessageData 2 ''m1'' ''msg7'' ''u1'']"
proof -
  have ne: "(1::nat) \<noteq> 2" by simp
  have e: "messageListenersRef initial = []" "invoked initial = []"
    by (simp_all add: initial_def)
  from listener_subscriptions [where ?c1.0 = 1 and ?c2.0 = 2 and st = initial
      and match_id = "''m1''" and message_id = "''msg7''" and sender_id = "''u1''"
      and cb = 1 and st' = initial] ne e
  show ?thesis by (simp add: setAdd_def setDelete_def)
qed


subsection \<open>Teardown\<close>

lemma map_of_deleteProp: "map_of (deleteProp h ps) = (map_of ps)(h := None)"
  by (induction ps) (auto simp: deleteProp_def fun_eq_iff)

lemma keys_deleteProp: "fst ` set (deleteProp h ps) = fst ` set ps - {h}"
  by (auto simp: deleteProp_def)

lemma clear_fields:
  "timers (clearTimeout h st) = deleteProp h (timers st)"
  "timers (clearInterval h st) = deleteProp h (timers st)"
  "wsRef (clearTimeout h st) = wsRef st"
  "wsRef (clearInterval h st) = wsRef st"
  "sockets (clearTimeout h st) = sockets st"
  "sockets (clearInterval h st) = sockets st"
  "reconnectTimeoutRef (clearInterval h st) = reconnectTimeoutRef st"
  "typingTimeoutsRef (clearTimeout h st) = typingTimeoutsRef st"
  "typingTimeoutsRef (clearInterval h st) = typingTimeoutsRef st"
  by (simp_all add: clearTimeout_def clearInterval_def)

text \<open>The cleanup's loop over \<^verbatim>\<open>Object.values(typingTimeoutsRef.current)\<close>, by name.\<close>

definition clearAll :: "nat list \<Rightarrow> manager \<Rightarrow> manager" where
  "clearAll hs st = foldl (\<lambda>s timeout. clearTimeout timeout s) st hs"

lemma clearAll_fields:
  "fst ` set (timers (clearAll hs st)) = fst ` set (timers st) - set hs"
  "wsRef (clearAll hs st) = wsRef st"
  "sockets (clearAll hs st) = sockets st"
  unfolding clearAll_def
  by (induction hs arbitrary: st) (auto simp: clear_fields keys_deleteProp)

lemma close_fields:
  "timers (close ws st) = timers st"
  "readyStateOf (close ws st) ws \<noteq> CONNECTING \<and> readyStateOf (close ws st) ws \<noteq> OPEN"
  by (auto simp: close_def readyStateOf_def setReadyState_def map_of_setProp
      split: option.splits)

lemma cleanup_unfold:
  "cleanup st =
     (let st1 = (case heartbeatIntervalRef st of
                   Some h \<Rightarrow> clearInterval h st | None \<Rightarrow> st);
          st2 = (case reconnectTimeoutRef st1 of
                   Some h \<Rightarrow> clearTimeout h st1 | None \<Rightarrow> st1);
          st3 = clearAll (map snd (typingTimeoutsRef st2)) st2
      in case wsRef st3 of Some ws \<Rightarrow> close ws st3 | None \<Rightarrow> st3)"
  by (simp add: cleanup_def clearAll_def)

lemma set_deleteProp: "set (deleteProp h ps) = {p \<in> set ps. fst p \<noteq> h}"
  by (auto simp: deleteProp_def)

lemma set_setProp_subset: "set (setProp k v ps) \<subseteq> insert (k, v) (set ps)"
proof (induction ps)
  case Nil
  show ?case by simp
next
  case (Cons p ps)
  obtain k' v' where p: "p = (k', v')" by (cases p)
  show ?case
  proof (cases "k' = k")
    case True
    with p show ?thesis by auto
  next
    case False
    with p Cons show ?thesis by auto
  qed
qed

text \<open>
  What the cleanup does: exactly the timers whose handle is in \<open>heartbeatIntervalRef\<close>,
  \<open>reconnectTimeoutRef\<close> or \<open>typingTimeoutsRef\<close> are cancelled, and the socket in \<open>wsRef\<close>
  is closing or closed afterwards.
\<close>

lemma set_timers_clearAll:
  "set (timers (clearAll hs st)) = {p \<in> set (timers st). fst p \<notin> set hs}"
  unfolding clearAll_def
  by (induction hs arbitrary: st) (auto simp: clear_fields set_deleteProp)

lemma set_timers_cleanup:
  "set (timers (cleanup st)) =
   {p \<in> set (timers st).
      fst p \<notin> set_option (heartbeatIntervalRef st) \<union> set_option (reconnectTimeoutRef st) \<union>
              snd ` set (typingTimeoutsRef st)}"
proof -
  define st1 where "st1 = (case heartbeatIntervalRef st of
                   Some h \<Rightarrow> clearInterval h st | None \<Rightarrow> st)"
  define st2 where "st2 = (case reconnectTimeoutRef st1 of
                   Some h \<Rightarrow> clearTimeout h st1 | None \<Rightarrow> st1)"
  define st3 where "st3 = clearAll (map snd (typingTimeoutsRef st2)) st2"
  have c: "cleanup st = (case wsRef st3 of Some ws \<Rightarrow> close ws st3 | None \<Rightarrow> st3)"
    unfolding cleanup_unfold st1_def st2_def st3_def Let_def ..
  have t: "timers (cleanup st) = timers st3"
    unfolding c by (simp add: close_fields split: option.splits)
  have 1: "set (timers st1) = {p \<in> set (timers st). fst p \<notin> set_option (heartbeatIntervalRef st)}"
    and r1: "reconnectTimeoutRef st1 = reconnectTimeoutRef st"
    and y1: "typingTimeoutsRef st1 = typingTimeoutsRef st"
    unfolding st1_def by (auto simp: clear_fields set_deleteProp split: option.splits)
  have 2: "set (timers st2) = {p \<in> set (timers st1). fst p \<notin> set_option (reconnectTimeoutRef st)}"
    and y2: "typingTimeoutsRef st2 = typingTimeoutsRef st"
    unfolding st2_def r1 using y1
    by (auto simp: clear_fields set_deleteProp split: option.splits)
  have 3: "set (timers st3) = {p \<in> set (timers st2). fst p \<notin> snd ` set (typingTimeoutsRef st)}"
    unfolding st3_def y2 by (simp add: set_timers_clearAll)
  show ?thesis unfolding t 3 2 1 by blast
qed

lemma cleanup_cancels:
  assumes "heartbeatIntervalRef st = Some h \<or> reconnectTimeoutRef st = Some h \<or>
           h \<in> snd ` set (typingTimeoutsRef st)"
  shows "map_of (timers (cleanup st)) h = None"
proof -
  from assms have "h \<notin> fst ` set (timers (cleanup st))"
    unfolding set_timers_cleanup by auto
  then show ?thesis by (simp add: map_of_eq_None_iff)
qed

lemma cleanup_closes:
  assumes "wsRef st = Some ws"
  shows "readyStateOf (cleanup st) ws \<noteq> CONNECTING \<and> readyStateOf (cleanup st) ws \<noteq> OPEN"
proof -
  define st1 where "st1 = (case heartbeatIntervalRef st of
                   Some h \<Rightarrow> clearInterval h st | None \<Rightarrow> st)"
  define st2 where "st2 = (case reconnectTimeoutRef st1 of
                   Some h \<Rightarrow> clearTimeout h st1 | None \<Rightarrow> st1)"
  define st3 where "st3 = clearAll (map snd (typingTimeoutsRef st2)) st2"
  have "wsRef st1 = Some ws"
    unfolding st1_def using assms by (simp add: clear_fields split: option.splits)
  then have "wsRef st2 = Some ws"
    unfolding st2_def by (simp add: clear_fields split: option.splits)
  then have ws: "wsRef st3 = Some ws"
    unfolding st3_def by (simp add: clearAll_fields)
  have "cleanup st = (case wsRef st3 of Some ws \<Rightarrow> close ws st3 | None \<Rightarrow> st3)"
    unfolding cleanup_unfold st1_def st2_def st3_def Let_def ..
  with ws have "cleanup st = close ws st3" by simp
  then show ?thesis by (simp only: close_fields not_False_eq_True simp_thms)
qed

subsection \<open>Every heartbeat and typing timer is in its ref\<close>

text \<open>
  In every state the manager reaches, a pending heartbeat timer is the one in
  \<open>heartbeatIntervalRef\<close>, and a pending typing timer is a one-shot timer stored in
  \<open>typingTimeoutsRef\<close> under its key. Reconnect timers are not tracked this way: \<open>onclose\<close>
  overwrites \<open>reconnectTimeoutRef\<close> without cancelling the timer it held.
\<close>

fun trackedBy ::
  "nat option \<Rightarrow> (string \<times> nat) list \<Rightarrow> nat \<Rightarrow> timerAction \<Rightarrow> nat option \<Rightarrow> bool" where
  "trackedBy hb ty h (HeartbeatTick ws) p = (hb = Some h)"
| "trackedBy hb ty h (Reconnect token) p = True"
| "trackedBy hb ty h (TypingExpiry match_id user_id) p =
     (p = None \<and> map_of ty (typingKey match_id user_id) = Some h)"

definition timersTracked :: "manager \<Rightarrow> bool" where
  "timersTracked st =
     (\<forall>(h, t) \<in> set (timers st).
        trackedBy (heartbeatIntervalRef st) (typingTimeoutsRef st) h (action t) (period t))"

lemma timersTrackedI:
  "(\<And>h t. (h, t) \<in> set (timers st) \<Longrightarrow>
      trackedBy (heartbeatIntervalRef st) (typingTimeoutsRef st) h (action t) (period t)) \<Longrightarrow>
   timersTracked st"
  by (auto simp: timersTracked_def)

lemma timersTrackedD:
  "timersTracked st \<Longrightarrow> (h, t) \<in> set (timers st) \<Longrightarrow>
   trackedBy (heartbeatIntervalRef st) (typingTimeoutsRef st) h (action t) (period t)"
  by (auto simp: timersTracked_def)

lemma tracked_frame:
  assumes "timersTracked st" and "set (timers st') \<subseteq> set (timers st)"
    and "heartbeatIntervalRef st' = heartbeatIntervalRef st"
    and "typingTimeoutsRef st' = typingTimeoutsRef st"
  shows "timersTracked st'"
  using assms unfolding timersTracked_def by auto

lemma tracked_initial: "timersTracked initial"
  by (simp add: timersTracked_def initial_def)

lemma tracked_connect: "timersTracked st \<Longrightarrow> timersTracked (connect token st)"
  by (erule tracked_frame) (simp_all add: connect_def)

lemma tracked_effect: "timersTracked st \<Longrightarrow> timersTracked (effect st)"
  by (simp add: effect_def tracked_connect split: option.splits)

lemma tracked_setReadyState: "timersTracked st \<Longrightarrow> timersTracked (setReadyState ws r st)"
  by (erule tracked_frame) (simp_all add: setReadyState_def split: option.splits)

lemma tracked_close: "timersTracked st \<Longrightarrow> timersTracked (close ws st)"
  by (simp add: close_def tracked_setReadyState)

lemma tracked_clearTimeout: "timersTracked st \<Longrightarrow> timersTracked (clearTimeout h st)"
  by (erule tracked_frame) (auto simp: clearTimeout_def set_deleteProp)

lemma tracked_clearInterval: "timersTracked st \<Longrightarrow> timersTracked (clearInterval h st)"
  by (erule tracked_frame) (auto simp: clearInterval_def set_deleteProp)

lemma tracked_clearAll: "timersTracked st \<Longrightarrow> timersTracked (clearAll hs st)"
  unfolding clearAll_def
  by (induction hs arbitrary: st) (simp_all add: tracked_clearTimeout)

lemma tracked_cleanup: "timersTracked st \<Longrightarrow> timersTracked (cleanup st)"
  unfolding cleanup_unfold Let_def
  by (auto intro!: tracked_close tracked_clearAll tracked_clearTimeout tracked_clearInterval
      split: option.splits)

lemma tracked_onopen:
  assumes inv: "timersTracked st"
  shows "timersTracked (onopen ws st)"
proof (rule timersTrackedI)
  fix h t
  assume mem: "(h, t) \<in> set (timers (onopen ws st))"
  define st1 where "st1 = (case heartbeatIntervalRef st of
                   Some h \<Rightarrow> clearInterval h st | None \<Rightarrow> st)"
  have eq: "onopen ws st =
      st1\<lparr>timers := timers st1 @
             [(nextTimerId st1, \<lparr>due = clock st1 + 30000, period = Some 30000,
                                 action = HeartbeatTick ws\<rparr>)],
          nextTimerId := nextTimerId st1 + 1,
          heartbeatIntervalRef := Some (nextTimerId st1)\<rparr>"
    unfolding onopen_def st1_def Let_def setInterval_def by simp
  have ty: "typingTimeoutsRef st1 = typingTimeoutsRef st"
    unfolding st1_def by (simp add: clearInterval_def split: option.splits)
  from mem consider (old) "(h, t) \<in> set (timers st1)"
    | (new) "h = nextTimerId st1" "action t = HeartbeatTick ws"
    unfolding eq by auto
  then show "trackedBy (heartbeatIntervalRef (onopen ws st)) (typingTimeoutsRef (onopen ws st))
      h (action t) (period t)"
  proof cases
    case old
    then have in_st: "(h, t) \<in> set (timers st)"
      and ne: "heartbeatIntervalRef st \<noteq> Some h"
      unfolding st1_def by (auto simp: clearInterval_def set_deleteProp split: option.splits)
    from timersTrackedD[OF inv in_st] ne ty show ?thesis
      unfolding eq by (cases "action t") simp_all
  next
    case new
    then show ?thesis unfolding eq by simp
  qed
qed

lemma tracked_onclose:
  assumes inv: "timersTracked st"
  shows "timersTracked (onclose token st)"
proof -
  define st1 where "st1 = (case heartbeatIntervalRef st of
                   Some h \<Rightarrow> clearInterval h st | None \<Rightarrow> st)"
  from inv have inv1: "timersTracked st1"
    unfolding st1_def by (simp add: tracked_clearInterval split: option.splits)
  define st2 where "st2 = st1\<lparr>timers := timers st1 @
             [(nextTimerId st1, \<lparr>due = clock st1 + 3000, period = None,
                                 action = Reconnect token\<rparr>)],
          nextTimerId := nextTimerId st1 + 1,
          reconnectTimeoutRef := Some (nextTimerId st1)\<rparr>"
  from inv1 have inv2: "timersTracked st2"
    unfolding st2_def timersTracked_def by auto
  have "onclose token st = st1 \<or> onclose token st = st2"
    unfolding onclose_def st1_def[symmetric] Let_def st2_def setTimeout_def
    by (simp split: option.splits)
  with inv1 inv2 show ?thesis by auto
qed

lemma tracked_onmessage:
  assumes inv: "timersTracked st"
  shows "timersTracked (onmessage data st)"
proof (cases data)
  case (TypingStatusMsg match_id user_id is_typing)
  define key where "key = typingKey match_id user_id"
  define st1 where "st1 = (case map_of (typingTimeoutsRef st) key of
                        Some h \<Rightarrow> clearTimeout h st | None \<Rightarrow> st)"
  define st2 where "st2 = st1\<lparr>typingStatuses :=
                          setTyping match_id user_id is_typing (typingStatuses st1)\<rparr>"
  have inv1: "timersTracked st1"
    unfolding st1_def using inv by (simp add: tracked_clearTimeout split: option.splits)
  have ty1: "typingTimeoutsRef st1 = typingTimeoutsRef st"
    and hb1: "heartbeatIntervalRef st1 = heartbeatIntervalRef st"
    unfolding st1_def by (simp_all add: clearTimeout_def split: option.splits)
  have inv2: "timersTracked st2"
    using inv1 by (rule tracked_frame) (simp_all add: st2_def)
  have nokey: "action t \<noteq> TypingExpiry m u"
    if "(h, t) \<in> set (timers st2)" "typingKey m u = key" for h t m u
  proof
    assume a: "action t = TypingExpiry m u"
    from that(1) have in1: "(h, t) \<in> set (timers st1)" by (simp add: st2_def)
    then have in0: "(h, t) \<in> set (timers st)"
      unfolding st1_def by (auto simp: clearTimeout_def set_deleteProp split: option.splits)
    from timersTrackedD[OF inv in0] a that(2)
    have "map_of (typingTimeoutsRef st) key = Some h" by simp
    with in1 show False
      unfolding st1_def by (simp add: clearTimeout_def set_deleteProp)
  qed
  show ?thesis
  proof (cases is_typing)
    case False
    with TypingStatusMsg have "onmessage data st = st2"
      unfolding onmessage_def st2_def st1_def key_def Let_def by simp
    with inv2 show ?thesis by simp
  next
    case True
    with TypingStatusMsg have eq: "onmessage data st =
        st2\<lparr>timers := timers st2 @
               [(nextTimerId st2, \<lparr>due = clock st2 + 3000, period = None,
                                   action = TypingExpiry match_id user_id\<rparr>)],
            nextTimerId := nextTimerId st2 + 1,
            typingTimeoutsRef := setProp key (nextTimerId st2) (typingTimeoutsRef st2)\<rparr>"
      unfolding onmessage_def st2_def st1_def key_def Let_def setTimeout_def by simp
    show ?thesis
    proof (rule timersTrackedI)
      fix h t
      assume "(h, t) \<in> set (timers (onmessage data st))"
      then consider (old) "(h, t) \<in> set (timers st2)"
        | (new) "h = nextTimerId st2" "action t = TypingExpiry match_id user_id"
            "period t = None"
        unfolding eq by auto
      then show "trackedBy (heartbeatIntervalRef (onmessage data st))
          (typingTimeoutsRef (onmessage data st)) h (action t) (period t)"
      proof cases
        case old
        from timersTrackedD[OF inv2 old] nokey[OF old] show ?thesis
          unfolding eq by (cases "action t") (auto simp: map_of_setProp)
      next
        case new
        then show ?thesis unfolding eq by (simp add: map_of_setProp key_def)
      qed
    qed
  qed
qed (auto intro: tracked_frame[OF inv] simp: onmessage_def)

lemma tracked_fire:
  assumes inv: "timersTracked st" and mem: "map_of (timers st) h = Some t"
  shows "timersTracked (fire (action t)
           (case period t of
              Some p \<Rightarrow> st\<lparr>timers := setProp h (t\<lparr>due := due t + p\<rparr>) (timers st)\<rparr>
            | None \<Rightarrow> st\<lparr>timers := deleteProp h (timers st)\<rparr>))"
proof -
  define st0 where "st0 = (case period t of
              Some p \<Rightarrow> st\<lparr>timers := setProp h (t\<lparr>due := due t + p\<rparr>) (timers st)\<rparr>
            | None \<Rightarrow> st\<lparr>timers := deleteProp h (timers st)\<rparr>)"
  from mem have in0: "(h, t) \<in> set (timers st)" by (rule map_of_SomeD)
  have refs: "heartbeatIntervalRef st0 = heartbeatIntervalRef st"
    "typingTimeoutsRef st0 = typingTimeoutsRef st"
    unfolding st0_def by (simp_all split: option.splits)
  have sub: "(h', t') \<in> set (timers st0) \<Longrightarrow>
      (h', t') \<in> set (timers st) \<or>
      (h' = h \<and> action t' = action t \<and> period t' = period t)" for h' t'
  proof (cases "period t")
    case None
    assume "(h', t') \<in> set (timers st0)"
    with None show ?thesis unfolding st0_def by (auto simp: set_deleteProp)
  next
    case (Some p)
    assume "(h', t') \<in> set (timers st0)"
    with Some have "(h', t') \<in> set (setProp h (t\<lparr>due := due t + p\<rparr>) (timers st))"
      unfolding st0_def by simp
    with set_setProp_subset[of h "t\<lparr>due := due t + p\<rparr>" "timers st"]
    have "(h', t') = (h, t\<lparr>due := due t + p\<rparr>) \<or> (h', t') \<in> set (timers st)" by auto
    then show ?thesis by auto
  qed
  have inv0: "timersTracked st0"
  proof (rule timersTrackedI)
    fix h' t'
    assume "(h', t') \<in> set (timers st0)"
    from sub[OF this] timersTrackedD[OF inv] in0 refs
    show "trackedBy (heartbeatIntervalRef st0) (typingTimeoutsRef st0) h' (action t') (period t')"
      by auto
  qed
  show ?thesis
    unfolding st0_def[symmetric]
  proof (cases "action t")
    case (HeartbeatTick ws)
    then show "timersTracked (fire (action t) st0)"
      using inv0 by (auto simp: fire_def intro: tracked_frame)
  next
    case (Reconnect token)
    then show "timersTracked (fire (action t) st0)"
      using inv0 by (simp add: fire_def tracked_connect)
  next
    case (TypingExpiry match_id user_id)
    define key where "key = typingKey match_id user_id"
    have once: "period t = None \<Longrightarrow> (h', t') \<in> set (timers st0) \<Longrightarrow> h' \<noteq> h" for h' t'
      unfolding st0_def by (auto simp: set_deleteProp)
    show "timersTracked (fire (action t) st0)"
    proof (rule timersTrackedI)
      fix h' t'
      assume m: "(h', t') \<in> set (timers (fire (action t) st0))"
      with TypingExpiry have m0: "(h', t') \<in> set (timers st0)" by (simp add: fire_def)
      from timersTrackedD[OF inv0 m0]
      have tr: "trackedBy (heartbeatIntervalRef st0) (typingTimeoutsRef st0) h' (action t') (period t')" .
      show "trackedBy (heartbeatIntervalRef (fire (action t) st0))
          (typingTimeoutsRef (fire (action t) st0)) h' (action t') (period t')"
      proof (cases "action t'")
        case (HeartbeatTick ws)
        with tr TypingExpiry show ?thesis by (simp add: fire_def)
      next
        case (Reconnect token)
        then show ?thesis by simp
      next
        case te: (TypingExpiry m u)
        show ?thesis
        proof (cases "typingKey m u = key")
          case False
          with tr te TypingExpiry show ?thesis
            by (simp add: fire_def key_def map_of_deleteProp)
        next
          case True
          from timersTrackedD[OF inv in0] TypingExpiry
          have "map_of (typingTimeoutsRef st) key = Some h" by (simp add: key_def)
          moreover from tr te True refs
          have "map_of (typingTimeoutsRef st) key = Some h'" by simp
          ultimately have "h' = h" by simp
          moreover from timersTrackedD[OF inv in0] TypingExpiry have "period t = None" by simp
          ultimately show ?thesis using once[OF _ m0] by simp
        qed
      qed
    qed
  qed
qed


lemma tracked_step:
  assumes "timersTracked st" and "step e st = Some st'"
  shows "timersTracked st'"
proof (cases e)
  case (StorageWrite t)
  with assms(2) have "st' = st\<lparr>storedToken := t\<rparr>" by (simp add: step_def)
  with assms(1) show ?thesis by (auto intro: tracked_frame)
next
  case RunEffect
  with assms show ?thesis by (auto simp: step_def tracked_effect)
next
  case RunCleanup
  with assms show ?thesis by (auto simp: step_def tracked_cleanup)
next
  case (SocketOpened ws)
  with assms show ?thesis
    by (auto simp: step_def tracked_onopen tracked_setReadyState split: if_splits)
next
  case (SocketMessage ws data)
  with assms show ?thesis by (auto simp: step_def tracked_onmessage split: if_splits)
next
  case (SocketClosed ws)
  with assms show ?thesis
    by (auto simp: step_def tracked_onclose tracked_setReadyState
        split: option.splits if_splits)
next
  case (TimerFired h)
  with assms(2) obtain t where t: "map_of (timers st) h = Some t"
    and st': "st' = fire (action t)
           (case period t of
              Some p \<Rightarrow> st\<lparr>timers := setProp h (t\<lparr>due := due t + p\<rparr>) (timers st)\<rparr>
            | None \<Rightarrow> st\<lparr>timers := deleteProp h (timers st)\<rparr>)"
    by (auto simp: step_def split: option.splits if_splits)
  show ?thesis unfolding st' using assms(1) t by (rule tracked_fire)
next
  case (Elapse ms)
  with assms(2) have "st' = st\<lparr>clock := clock st + ms\<rparr>"
    by (simp add: step_def split: if_splits)
  with assms(1) show ?thesis by (auto intro: tracked_frame)
qed

lemma tracked_run:
  "timersTracked st \<Longrightarrow> run es st = Some st' \<Longrightarrow> timersTracked st'"
proof (induction es arbitrary: st)
  case Nil
  then show ?case by simp
next
  case (Cons e es)
  from Cons.prems(2) obtain st1 where s: "step e st = Some st1" and r: "run es st1 = Some st'"
    by (auto split: option.splits)
  from tracked_step[OF Cons.prems(1) s] r show ?case by (rule Cons.IH)
qed

text \<open>
  So the cleanup cancels every heartbeat and every typing timer on every path; the only
  timers it can leave behind are reconnects.
\<close>

lemma cleanup_leaves_only_reconnects:
  assumes "run es initial = Some st" and "(h, t) \<in> set (timers (cleanup st))"
  shows "\<exists>token. action t = Reconnect token"
proof -
  from tracked_run[OF tracked_initial assms(1)] have inv: "timersTracked st" .
  from assms(2) have mem: "(h, t) \<in> set (timers st)"
    and hb: "heartbeatIntervalRef st \<noteq> Some h"
    and ty: "h \<notin> snd ` set (typingTimeoutsRef st)"
    unfolding set_timers_cleanup by auto
  from timersTrackedD[OF inv mem]
  have tr: "trackedBy (heartbeatIntervalRef st) (typingTimeoutsRef st) h (action t) (period t)" .
  show ?thesis
  proof (cases "action t")
    case (HeartbeatTick ws)
    with tr hb show ?thesis by simp
  next
    case (Reconnect token)
    then show ?thesis by simp
  next
    case (TypingExpiry match_id user_id)
    with tr have "map_of (typingTimeoutsRef st) (typingKey match_id user_id) = Some h" by simp
    then have "(typingKey match_id user_id, h) \<in> set (typingTimeoutsRef st)"
      by (rule map_of_SomeD)
    then have "h \<in> snd ` set (typingTimeoutsRef st)" by force
    with ty show ?thesis by simp
  qed
qed

text \<open>
  C2. After the cleanup has run, no heartbeat ping is sent and no timer fires. The
  cleanup cancels the timers and closes the socket, but it leaves the socket's \<open>onclose\<close>
  handler in place. When the component unmounts while a token is stored, the cleanup
  leaves no timer pending and nothing has been sent; then the browser reports the close
  that \<^verbatim>\<open>wsRef.current.close()\<close> started, \<open>onclose\<close> finds the token and schedules a
  reconnect, the reconnect opens a second socket three seconds later, and that socket's
  heartbeat sends a ping.
\<close>

theorem teardown_then_heartbeat:
  "map_option (\<lambda>st. (timers st, sent st))
     (run [StorageWrite (Some ''tok''), RunEffect, SocketOpened 1, RunCleanup] initial)
   = Some ([], []) \<and>
   map_option sent
     (run [StorageWrite (Some ''tok''), RunEffect, SocketOpened 1, RunCleanup,
           SocketClosed 1, Elapse 3000, TimerFired 2, SocketOpened 2, Elapse 30000,
           TimerFired 3] initial)
   = Some [(2, Ping)]"
  by (simp add: manager_defs)

subsection \<open>Typing flags\<close>

text \<open>
  A \<open>typing_status\<close> push with \<open>is_typing\<close> true sets the flag, cancels the timer stored
  under the key and stores a new one, due three seconds after the push; the expiry
  clears the flag.
\<close>

lemma typing_push_true:
  fixes st :: manager and match_id user_id :: string
  assumes fresh: "nextTimerId st \<notin> fst ` set (timers st)"
  defines "st' \<equiv> onmessage (TypingStatusMsg match_id user_id True) st"
  shows "isUserTypingInMatch st' user_id match_id"
    and "map_of (typingTimeoutsRef st') (typingKey match_id user_id) = Some (nextTimerId st)"
    and "map_of (timers st') (nextTimerId st) =
           Some \<lparr>due = clock st + 3000, period = None, action = TypingExpiry match_id user_id\<rparr>"
    and "map_of (typingTimeoutsRef st) (typingKey match_id user_id) = Some h \<Longrightarrow>
           h \<noteq> nextTimerId st \<Longrightarrow> map_of (timers st') h = None"
proof -
  show "isUserTypingInMatch st' user_id match_id"
    unfolding st'_def
    by (simp add: onmessage_def Let_def setTimeout_def clearTimeout_def isUserTypingInMatch_def
        setTyping_def map_of_setProp split: option.splits)
  show "map_of (typingTimeoutsRef st') (typingKey match_id user_id) = Some (nextTimerId st)"
    unfolding st'_def
    by (simp add: onmessage_def Let_def setTimeout_def clearTimeout_def map_of_setProp
        split: option.splits)
  from fresh have none: "map_of (timers st) (nextTimerId st) = None"
    by (simp add: map_of_eq_None_iff)
  then show "map_of (timers st') (nextTimerId st) =
           Some \<lparr>due = clock st + 3000, period = None, action = TypingExpiry match_id user_id\<rparr>"
    unfolding st'_def
    by (simp add: onmessage_def Let_def setTimeout_def clearTimeout_def map_of_deleteProp
        map_add_def split: option.splits)
  show "map_of (timers st') h = None"
    if "map_of (typingTimeoutsRef st) (typingKey match_id user_id) = Some h" "h \<noteq> nextTimerId st"
    using that unfolding st'_def
    by (simp add: onmessage_def Let_def setTimeout_def clearTimeout_def map_of_deleteProp
        map_add_def)
qed

lemma typing_expiry_clears:
  "\<not> isUserTypingInMatch (fire (TypingExpiry match_id user_id) st) user_id match_id"
  by (simp add: fire_def isUserTypingInMatch_def setTyping_def map_of_setProp)

text \<open>Timer handles are never reused: every pending handle is below the next one.\<close>

definition handlesFresh :: "manager \<Rightarrow> bool" where
  "handlesFresh st = (\<forall>(h, t) \<in> set (timers st). h < nextTimerId st)"

lemma fresh_frame:
  assumes "handlesFresh st" and "set (timers st') \<subseteq> set (timers st)"
    and "nextTimerId st \<le> nextTimerId st'"
  shows "handlesFresh st'"
  using assms unfolding handlesFresh_def by fastforce

lemma fresh_add:
  assumes "handlesFresh st"
    and "set (timers st') \<subseteq> insert (nextTimerId st, t) (set (timers st))"
    and "nextTimerId st' = nextTimerId st + 1"
  shows "handlesFresh st'"
  using assms unfolding handlesFresh_def by fastforce

lemma fresh_initial: "handlesFresh initial"
  by (simp add: handlesFresh_def initial_def)

lemma fresh_connect: "handlesFresh st \<Longrightarrow> handlesFresh (connect token st)"
  by (erule fresh_frame) (simp_all add: connect_def)

lemma fresh_effect: "handlesFresh st \<Longrightarrow> handlesFresh (effect st)"
  by (simp add: effect_def fresh_connect split: option.splits)

lemma fresh_setReadyState: "handlesFresh st \<Longrightarrow> handlesFresh (setReadyState ws r st)"
  by (erule fresh_frame) (simp_all add: setReadyState_def split: option.splits)

lemma fresh_close: "handlesFresh st \<Longrightarrow> handlesFresh (close ws st)"
  by (simp add: close_def fresh_setReadyState)

lemma fresh_clearTimeout: "handlesFresh st \<Longrightarrow> handlesFresh (clearTimeout h st)"
  by (erule fresh_frame) (auto simp: clearTimeout_def set_deleteProp)

lemma fresh_clearInterval: "handlesFresh st \<Longrightarrow> handlesFresh (clearInterval h st)"
  by (erule fresh_frame) (auto simp: clearInterval_def set_deleteProp)

lemma fresh_clearAll: "handlesFresh st \<Longrightarrow> handlesFresh (clearAll hs st)"
  unfolding clearAll_def
  by (induction hs arbitrary: st) (simp_all add: fresh_clearTimeout)

lemma fresh_cleanup: "handlesFresh st \<Longrightarrow> handlesFresh (cleanup st)"
  unfolding cleanup_unfold Let_def
  by (auto intro!: fresh_close fresh_clearAll fresh_clearTimeout fresh_clearInterval
      split: option.splits)

lemma fresh_onopen:
  assumes "handlesFresh st"
  shows "handlesFresh (onopen ws st)"
proof -
  define st1 where "st1 = (case heartbeatIntervalRef st of
                   Some h \<Rightarrow> clearInterval h st | None \<Rightarrow> st)"
  from assms have 1: "handlesFresh st1"
    unfolding st1_def by (simp add: fresh_clearInterval split: option.splits)
  have eq: "onopen ws st =
      st1\<lparr>timers := timers st1 @
             [(nextTimerId st1, \<lparr>due = clock st1 + 30000, period = Some 30000,
                                 action = HeartbeatTick ws\<rparr>)],
          nextTimerId := nextTimerId st1 + 1,
          heartbeatIntervalRef := Some (nextTimerId st1)\<rparr>"
    unfolding onopen_def st1_def Let_def setInterval_def by simp
  show ?thesis unfolding eq by (rule fresh_add[OF 1]) auto
qed

lemma fresh_onclose:
  assumes "handlesFresh st"
  shows "handlesFresh (onclose token st)"
proof -
  define st1 where "st1 = (case heartbeatIntervalRef st of
                   Some h \<Rightarrow> clearInterval h st | None \<Rightarrow> st)"
  from assms have 1: "handlesFresh st1"
    unfolding st1_def by (simp add: fresh_clearInterval split: option.splits)
  define st2 where "st2 = st1\<lparr>timers := timers st1 @
             [(nextTimerId st1, \<lparr>due = clock st1 + 3000, period = None,
                                 action = Reconnect token\<rparr>)],
          nextTimerId := nextTimerId st1 + 1,
          reconnectTimeoutRef := Some (nextTimerId st1)\<rparr>"
  have 2: "handlesFresh st2"
    unfolding st2_def by (rule fresh_add[OF 1]) auto
  have "onclose token st = st1 \<or> onclose token st = st2"
    unfolding onclose_def st1_def[symmetric] Let_def st2_def setTimeout_def
    by (simp split: option.splits)
  with 1 2 show ?thesis by auto
qed

lemma fresh_onmessage:
  assumes "handlesFresh st"
  shows "handlesFresh (onmessage data st)"
proof (cases data)
  case (TypingStatusMsg match_id user_id is_typing)
  define key where "key = typingKey match_id user_id"
  define st1 where "st1 = (case map_of (typingTimeoutsRef st) key of
                        Some h \<Rightarrow> clearTimeout h st | None \<Rightarrow> st)"
  define st2 where "st2 = st1\<lparr>typingStatuses :=
                          setTyping match_id user_id is_typing (typingStatuses st1)\<rparr>"
  have 1: "handlesFresh st1"
    unfolding st1_def using assms by (simp add: fresh_clearTimeout split: option.splits)
  have 2: "handlesFresh st2"
    using 1 by (rule fresh_frame) (simp_all add: st2_def)
  show ?thesis
  proof (cases is_typing)
    case False
    with TypingStatusMsg have "onmessage data st = st2"
      unfolding onmessage_def st2_def st1_def key_def Let_def by simp
    with 2 show ?thesis by simp
  next
    case True
    with TypingStatusMsg have eq: "onmessage data st =
        st2\<lparr>timers := timers st2 @
               [(nextTimerId st2, \<lparr>due = clock st2 + 3000, period = None,
                                   action = TypingExpiry match_id user_id\<rparr>)],
            nextTimerId := nextTimerId st2 + 1,
            typingTimeoutsRef := setProp key (nextTimerId st2) (typingTimeoutsRef st2)\<rparr>"
      unfolding onmessage_def st2_def st1_def key_def Let_def setTimeout_def by simp
    show ?thesis unfolding eq by (rule fresh_add[OF 2]) auto
  qed
qed (auto intro: fresh_frame[OF assms] simp: onmessage_def)

lemma fresh_fire:
  assumes inv: "handlesFresh st" and mem: "map_of (timers st) h = Some t"
  shows "handlesFresh (fire (action t)
           (case period t of
              Some p \<Rightarrow> st\<lparr>timers := setProp h (t\<lparr>due := due t + p\<rparr>) (timers st)\<rparr>
            | None \<Rightarrow> st\<lparr>timers := deleteProp h (timers st)\<rparr>))"
proof -
  define st0 where "st0 = (case period t of
              Some p \<Rightarrow> st\<lparr>timers := setProp h (t\<lparr>due := due t + p\<rparr>) (timers st)\<rparr>
            | None \<Rightarrow> st\<lparr>timers := deleteProp h (timers st)\<rparr>)"
  from mem have in0: "(h, t) \<in> set (timers st)" by (rule map_of_SomeD)
  with inv have lt: "h < nextTimerId st" by (auto simp: handlesFresh_def)
  have n0: "nextTimerId st0 = nextTimerId st"
    unfolding st0_def by (simp split: option.splits)
  have sub: "(h', t') \<in> set (timers st0) \<Longrightarrow> (h', t') \<in> set (timers st) \<or> h' = h" for h' t'
    unfolding st0_def using set_setProp_subset[of h _ "timers st"]
    by (auto simp: set_deleteProp split: option.splits)
  have inv0: "handlesFresh st0"
    unfolding handlesFresh_def n0 using sub inv lt by (fastforce simp: handlesFresh_def)
  show ?thesis
    unfolding st0_def[symmetric]
  proof (cases "action t")
    case (HeartbeatTick ws)
    then show "handlesFresh (fire (action t) st0)"
      by (auto simp: fire_def intro: fresh_frame[OF inv0])
  next
    case (Reconnect token)
    then show "handlesFresh (fire (action t) st0)"
      using inv0 by (simp add: fire_def fresh_connect)
  next
    case (TypingExpiry match_id user_id)
    then show "handlesFresh (fire (action t) st0)"
      by (auto simp: fire_def intro: fresh_frame[OF inv0])
  qed
qed

lemma fresh_step:
  assumes "handlesFresh st" and "step e st = Some st'"
  shows "handlesFresh st'"
proof (cases e)
  case (StorageWrite t)
  with assms(2) have "st' = st\<lparr>storedToken := t\<rparr>" by (simp add: step_def)
  with assms(1) show ?thesis by (auto intro: fresh_frame)
next
  case RunEffect
  with assms show ?thesis by (auto simp: step_def fresh_effect)
next
  case RunCleanup
  with assms show ?thesis by (auto simp: step_def fresh_cleanup)
next
  case (SocketOpened ws)
  with assms show ?thesis
    by (auto simp: step_def fresh_onopen fresh_setReadyState split: if_splits)
next
  case (SocketMessage ws data)
  with assms show ?thesis by (auto simp: step_def fresh_onmessage split: if_splits)
next
  case (SocketClosed ws)
  with assms show ?thesis
    by (auto simp: step_def fresh_onclose fresh_setReadyState
        split: option.splits if_splits)
next
  case (TimerFired h)
  with assms(2) obtain t where t: "map_of (timers st) h = Some t"
    and st': "st' = fire (action t)
           (case period t of
              Some p \<Rightarrow> st\<lparr>timers := setProp h (t\<lparr>due := due t + p\<rparr>) (timers st)\<rparr>
            | None \<Rightarrow> st\<lparr>timers := deleteProp h (timers st)\<rparr>)"
    by (auto simp: step_def split: option.splits if_splits)
  show ?thesis unfolding st' using assms(1) t by (rule fresh_fire)
next
  case (Elapse ms)
  with assms(2) have "st' = st\<lparr>clock := clock st + ms\<rparr>"
    by (simp add: step_def split: if_splits)
  with assms(1) show ?thesis by (auto intro: fresh_frame)
qed

lemma fresh_run:
  "handlesFresh st \<Longrightarrow> run es st = Some st' \<Longrightarrow> handlesFresh st'"
proof (induction es arbitrary: st)
  case Nil
  then show ?case by simp
next
  case (Cons e es)
  from Cons.prems(2) obtain st1 where s: "step e st = Some st1" and r: "run es st1 = Some st'"
    by (auto split: option.splits)
  from fresh_step[OF Cons.prems(1) s] r show ?case by (rule Cons.IH)
qed

text \<open>
  In every state the manager reaches, after a push with \<open>is_typing\<close> true the flag is set
  and the pair has exactly one pending expiry, the new one: timers do not stack, and the
  quiet period is measured from the latest push.
\<close>

lemma typing_push_restarts:
  fixes st :: manager and match_id user_id :: string
  assumes reach: "run es initial = Some st"
  defines "st' \<equiv> onmessage (TypingStatusMsg match_id user_id True) st"
  shows "isUserTypingInMatch st' user_id match_id \<and>
         (\<forall>h t. (h, t) \<in> set (timers st') \<and> action t = TypingExpiry match_id user_id \<longrightarrow>
            h = nextTimerId st \<and> due t = clock st + 3000)"
proof -
  from fresh_run[OF fresh_initial reach] have fr: "handlesFresh st" .
  then have fresh: "nextTimerId st \<notin> fst ` set (timers st)"
    by (auto simp: handlesFresh_def)
  from tracked_run[OF tracked_initial reach] have "timersTracked st" .
  then have tr': "timersTracked st'"
    unfolding st'_def by (rule tracked_onmessage)
  have flag: "isUserTypingInMatch st' user_id match_id"
    unfolding st'_def using typing_push_true(1)[OF fresh] .
  have key: "map_of (typingTimeoutsRef st') (typingKey match_id user_id) = Some (nextTimerId st)"
    unfolding st'_def using typing_push_true(2)[OF fresh] .
  have "h = nextTimerId st \<and> due t = clock st + 3000"
    if m: "(h, t) \<in> set (timers st')" and a: "action t = TypingExpiry match_id user_id" for h t
  proof -
    from timersTrackedD[OF tr' m] a key have h: "h = nextTimerId st" by simp
    from m have "(h, t) \<in> set (timers st) \<or>
        t = \<lparr>due = clock st + 3000, period = None, action = TypingExpiry match_id user_id\<rparr>"
      unfolding st'_def
      by (auto simp: onmessage_def Let_def setTimeout_def clearTimeout_def set_deleteProp
          split: option.splits)
    with h fresh show ?thesis by force
  qed
  with flag show ?thesis by blast
qed

text \<open>
  C4. For every (conversation, user) pair, a flag set to true clears after three seconds
  without a further push for that pair. The timers are stored under the string
  \<^verbatim>\<open>`${match_id}-${user_id}`\<close>, which two pairs can share: \<open>(a-b, c)\<close> and \<open>(a, b-c)\<close> both
  give \<open>a-b-c\<close>. A push for the second pair one second after a push for the first
  cancels the first pair's timer; the first pair receives no further push, and 24
  seconds later its flag is still true and the only pending timer is the heartbeat.
\<close>

theorem typing_key_collision:
  "typingKey ''a-b'' ''c'' = typingKey ''a'' ''b-c'' \<and>
   map_option
     (\<lambda>st. (clock st, isUserTypingInMatch st ''c'' ''a-b'', map (action \<circ> snd) (timers st)))
     (run [StorageWrite (Some ''tok''), RunEffect, SocketOpened 1,
           SocketMessage 1 (TypingStatusMsg ''a-b'' ''c'' True), Elapse 1000,
           SocketMessage 1 (TypingStatusMsg ''a'' ''b-c'' True), Elapse 3000,
           TimerFired 3, Elapse 20000] initial)
   = Some (24000, True, [HeartbeatTick 1])"
  by (simp add: manager_defs)

end
